theory Spec2Isabelle
  imports Main "HOL-Library.Word"
begin

section \<open>The graph layout prototype: \<open>Graph.modelChanged\<close>, edge pre-pass\<close>

text \<open>
  The browser prototype receives a model \<open>{vertices: [{uid, nInputs}], edges: [{fromVertex,
  toVertex, toInput}]}\<close> and, before it touches any tile, records for every vertex which
  upstream vertex feeds each of its inputs. The fields of a vertex and of an edge are numbers,
  as \<open>interface Edge\<close> declares, modelled as \<open>int\<close> (integral values only). In the rows
  of \<open>upstreamNodeVertices\<close>, \<open>null\<close> is \<open>None\<close>. A \<open>throw\<close> is the left summand.
\<close>

record Vertex =
  uid :: int
  nInputs :: int

record Edge =
  fromVertex :: int
  toInput :: int
  toVertex :: int

text \<open>
  The three ways the loop over the model edges can stop: the two strings thrown by the source
  (with the numbers they interpolate, in the order of the message), and the \<open>TypeError\<close> that
  JavaScript raises when \<open>.length\<close> is read from \<open>undefined\<close>, which is what
  \<open>upstreamNodeVertices[edge.toVertex]\<close> is for a vertex index outside the array.
\<close>

datatype js_error =
  NonexistantInput int int
  | MultipleUpstream int int
  | TypeError

type_synonym upstream = "int option list list"

text \<open>
  \<open>upstreamNodeVertices[index] = []\<close> followed by \<open>nInputs\<close> pushes of \<open>null\<close>: the loop
  \<open>for (i = 0; i < node.nInputs; i++)\<close> runs \<open>nat (nInputs node)\<close> times, so not at all for a
  count that is zero or negative.
\<close>

definition upstreamNodeVertices_init :: "Vertex list \<Rightarrow> upstream" where
  "upstreamNodeVertices_init vertices = map (\<lambda>node. replicate (nat (nInputs node)) None) vertices"

text \<open>\<open>Array.from(this.model.vertices.keys())\<close>: the indices \<open>0, ..., n - 1\<close>.\<close>

definition startNodeVertices_init :: "Vertex list \<Rightarrow> int list" where
  "startNodeVertices_init vertices = map int [0..<length vertices]"

text \<open>
  The body of \<open>for (let edge of this.model.edges)\<close>. A negative \<open>toInput\<close> passes the first
  test, reads \<open>undefined\<close> from the row, and \<open>undefined !== null\<close> holds, so the second
  \<open>throw\<close> is taken. \<open>indexOf\<close> followed by \<open>splice(ix, 1)\<close> removes the first occurrence.
\<close>

definition process_edge :: "upstream \<times> int list \<Rightarrow> Edge \<Rightarrow> js_error + upstream \<times> int list" where
  "process_edge st edge =
     (let upstreamNodeVertices = fst st; startNodeVertices = snd st in
      if toVertex edge < 0 \<or> int (length upstreamNodeVertices) \<le> toVertex edge then Inl TypeError
      else
        let row = upstreamNodeVertices ! nat (toVertex edge) in
        if toInput edge \<ge> int (length row) then
          Inl (NonexistantInput (toInput edge) (toVertex edge))
        else if toInput edge < 0 \<or> row ! nat (toInput edge) \<noteq> None then
          Inl (MultipleUpstream (toVertex edge) (toInput edge))
        else
          Inr (upstreamNodeVertices
                 [nat (toVertex edge) := row[nat (toInput edge) := Some (fromVertex edge)]],
               remove1 (fromVertex edge) startNodeVertices))"

fun process_edges :: "upstream \<times> int list \<Rightarrow> Edge list \<Rightarrow> js_error + upstream \<times> int list" where
  "process_edges st [] = Inr st"
| "process_edges st (edge # edges) =
     (case process_edge st edge of
        Inl err \<Rightarrow> Inl err
      | Inr st' \<Rightarrow> process_edges st' edges)"

text \<open>Lines 439 to 463 of \<open>modelChanged\<close>: the two initialisations and the edge loop.\<close>

definition modelChanged_edges :: "Vertex list \<Rightarrow> Edge list \<Rightarrow> js_error + upstream \<times> int list" where
  "modelChanged_edges vertices edges =
     process_edges (upstreamNodeVertices_init vertices, startNodeVertices_init vertices) edges"

text \<open>The model that the prototype's \<open>mousedown\<close> handler installs before it calls \<open>modelChanged\<close>.\<close>

definition mousedown_vertices :: "Vertex list" where
  "mousedown_vertices =
     [\<lparr>uid = 100, nInputs = 1\<rparr>, \<lparr>uid = 200, nInputs = 1\<rparr>, \<lparr>uid = 300, nInputs = 1\<rparr>]"

definition mousedown_edges :: "Edge list" where
  "mousedown_edges =
     [\<lparr>fromVertex = 0, toInput = 0, toVertex = 1\<rparr>, \<lparr>fromVertex = 1, toInput = 0, toVertex = 2\<rparr>]"


section \<open>The output window: \<open>OutputWindow.cpp\<close>\<close>

text \<open>
  A \<open>QScreen *\<close> is compared by address, so a screen carries the address of its object next
  to what \<open>name()\<close> and \<open>geometry()\<close> return. \<open>QGuiApplication::screens()\<close> is a parameter
  of every operation: the list of screens at the time of the call.
\<close>

type_synonym QRect = "int \<times> int \<times> int \<times> int"

record QScreen =
  ptr :: nat
  name :: string
  geometry :: QRect

datatype window_signal =
  screenNameChanged string
  | foundChanged bool
  | screenChanged nat

text \<open>A \<open>QTimer\<close>: a new one has interval 0, is not single-shot and is not active.\<close>

record QTimer =
  interval :: int
  singleShot :: bool
  active :: bool

text \<open>
  The members of \<open>OutputWindow\<close> and the part of its \<open>QWindow\<close> base that the code reads and
  writes: \<open>screen()\<close> and the geometry set by \<open>setGeometry\<close>. \<open>emitted\<close> lists the signals
  emitted so far, oldest first.
\<close>

record OutputWindow =
  m_screenName :: string
  m_found :: bool
  m_reloader :: QTimer
  screen :: QScreen
  windowGeometry :: QRect
  emitted :: "window_signal list"

definition putOnScreen :: "OutputWindow \<Rightarrow> OutputWindow" where
  "putOnScreen w = w\<lparr>windowGeometry := geometry (screen w)\<rparr>"

text \<open>
  \<open>QWindow::setScreen\<close> is called by \<open>reload\<close> only with a screen other than the current one; it
  makes that screen current and emits \<open>screenChanged\<close>. The constructor connects this signal, in
  this order, to \<open>onScreenChanged\<close> and to \<open>putOnScreen\<close>, both in the window's own thread, so
  both slots run inside \<open>setScreen\<close> before it returns. \<open>onScreenChanged\<close> calls \<open>reload()\<close>:
  the parameter \<open>nested\<close> stands for that inner call, which may not return.
\<close>

definition onScreenChanged ::
  "(OutputWindow \<Rightarrow> OutputWindow option) \<Rightarrow> QScreen \<Rightarrow> OutputWindow \<Rightarrow> OutputWindow option" where
  "onScreenChanged nested scr w = nested w"

definition setScreen ::
  "(OutputWindow \<Rightarrow> OutputWindow option) \<Rightarrow> QScreen \<Rightarrow> OutputWindow \<Rightarrow> OutputWindow option" where
  "setScreen nested newScreen w =
     (case onScreenChanged nested newScreen
             (w\<lparr>screen := newScreen, emitted := emitted w @ [screenChanged (ptr newScreen)]\<rparr>) of
        None \<Rightarrow> None
      | Some w' \<Rightarrow> Some (putOnScreen w'))"

text \<open>The \<open>foreach\<close> of \<open>reload\<close>, from the screens still to test and the local \<open>found\<close>.\<close>

fun reload_foreach ::
  "(OutputWindow \<Rightarrow> OutputWindow option) \<Rightarrow> QScreen list \<Rightarrow> bool \<Rightarrow> OutputWindow
     \<Rightarrow> (bool \<times> OutputWindow) option" where
  "reload_foreach nested [] found w = Some (found, w)"
| "reload_foreach nested (testScreen # rest) found w =
     (if name testScreen = m_screenName w then
        (case (if ptr (screen w) \<noteq> ptr testScreen then setScreen nested testScreen w else Some w) of
           None \<Rightarrow> None
         | Some w' \<Rightarrow> reload_foreach nested rest True w')
      else reload_foreach nested rest found w)"

text \<open>The end of \<open>reload\<close>: \<open>if (found != m_found) { m_found = found; emit foundChanged(found); }\<close>.\<close>

definition reload_finish :: "bool \<Rightarrow> OutputWindow \<Rightarrow> OutputWindow" where
  "reload_finish found w =
     (if found \<noteq> m_found w then w\<lparr>m_found := found, emitted := emitted w @ [foundChanged found]\<rparr>
      else w)"

text \<open>
  \<open>reload\<close> with a bound on how deep calls of \<open>reload\<close> may nest (a call made through
  \<open>screenChanged\<close> runs with one less). \<open>None\<close> says that the bound was not enough; a call that
  is \<open>None\<close> for every bound never returns.
\<close>

primrec reload :: "nat \<Rightarrow> QScreen list \<Rightarrow> OutputWindow \<Rightarrow> OutputWindow option" where
  "reload 0 = (\<lambda>screens w. None)"
| "reload (Suc depth) = (\<lambda>screens w.
     case reload_foreach (reload depth screens) screens False w of
       None \<Rightarrow> None
     | Some (found, w') \<Rightarrow> Some (reload_finish found w'))"

declare reload.simps(2) [simp del]

definition setScreenName :: "nat \<Rightarrow> QScreen list \<Rightarrow> string \<Rightarrow> OutputWindow \<Rightarrow> OutputWindow option" where
  "setScreenName depth screens screenName w =
     (if screenName \<noteq> m_screenName w then
        reload depth screens
          (w\<lparr>m_screenName := screenName, emitted := emitted w @ [screenNameChanged screenName]\<rparr>)
      else Some w)"

text \<open>
  The constructor. The screen a new window is on and its geometry before \<open>putOnScreen\<close> come
  from Qt and are parameters. Window flags, window state and \<open>m_videoNode\<close> are not
  modelled.
\<close>

definition OutputWindow_new :: "nat \<Rightarrow> QScreen list \<Rightarrow> QScreen \<Rightarrow> QRect \<Rightarrow> OutputWindow option" where
  "OutputWindow_new depth screens initialScreen initialGeometry =
     (case reload depth screens
             (putOnScreen \<lparr>m_screenName = [], m_found = False,
                m_reloader = \<lparr>interval = 0, singleShot = False, active = False\<rparr>,
                screen = initialScreen, windowGeometry = initialGeometry, emitted = []\<rparr>) of
        None \<Rightarrow> None
      | Some w \<Rightarrow> Some (w\<lparr>m_reloader := (m_reloader w)\<lparr>interval := 1000, active := True\<rparr>\<rparr>))"

text \<open>
  One expiry of \<open>m_reloader\<close>, whose \<open>timeout\<close> signal is connected to \<open>reload\<close>. A
  single-shot timer stops when it expires; any other timer stays active and expires again.
\<close>

definition m_reloader_timeout :: "nat \<Rightarrow> QScreen list \<Rightarrow> OutputWindow \<Rightarrow> OutputWindow option" where
  "m_reloader_timeout depth screens w =
     (if active (m_reloader w) then
        reload depth screens
          (if singleShot (m_reloader w) then w\<lparr>m_reloader := (m_reloader w)\<lparr>active := False\<rparr>\<rparr> else w)
      else Some w)"

text \<open>A run of polls: one list of available screens for every expiry of the timer.\<close>

fun polls :: "nat \<Rightarrow> QScreen list list \<Rightarrow> OutputWindow \<Rightarrow> OutputWindow option" where
  "polls depth [] w = Some w"
| "polls depth (screens # later) w =
     (case m_reloader_timeout depth screens w of
        None \<Rightarrow> None
      | Some w' \<Rightarrow> polls depth later w')"

text \<open>
  What \<open>setScreen\<close> leaves behind when the inner \<open>reload\<close> has nothing to attach and finds a
  screen with the configured name: the screen is current, \<open>screenChanged\<close> has been emitted, the
  inner \<open>reload\<close> has set \<open>m_found\<close>, and \<open>putOnScreen\<close> has copied the screen's geometry.
\<close>

definition attach :: "QScreen \<Rightarrow> OutputWindow \<Rightarrow> OutputWindow" where
  "attach t w = putOnScreen (reload_finish True
       (w\<lparr>screen := t, emitted := emitted w @ [screenChanged (ptr t)]\<rparr>))"

fun is_screenNameChanged :: "window_signal \<Rightarrow> bool" where
  "is_screenNameChanged (screenNameChanged n) = True"
| "is_screenNameChanged (foundChanged b) = False"
| "is_screenNameChanged (screenChanged p) = False"

text \<open>
  What a \<open>reload\<close> leaves alone: the configured name and the timer; the signals already emitted
  stay, and none of the new ones is \<open>screenNameChanged\<close>.
\<close>

definition poll_frame :: "OutputWindow \<Rightarrow> OutputWindow \<Rightarrow> bool" where
  "poll_frame w w' \<longleftrightarrow>
     m_screenName w' = m_screenName w \<and> m_reloader w' = m_reloader w \<and>
     take (length (emitted w)) (emitted w') = emitted w \<and>
     filter is_screenNameChanged (drop (length (emitted w)) (emitted w')) = []"

text \<open>
  A laptop panel and two external monitors of the same model, for which \<open>QScreen::name()\<close>
  returns the same string; a window created while only the panel is present and then
  configured for the external monitor.
\<close>

definition panel :: QScreen where
  "panel = \<lparr>ptr = 0, name = ''Color LCD'', geometry = (0, 0, 1440, 900)\<rparr>"

definition monitor_left :: QScreen where
  "monitor_left = \<lparr>ptr = 1, name = ''DELL U2412M'', geometry = (1440, 0, 1920, 1200)\<rparr>"

definition monitor_right :: QScreen where
  "monitor_right = \<lparr>ptr = 2, name = ''DELL U2412M'', geometry = (3360, 0, 1920, 1200)\<rparr>"

definition searching :: OutputWindow where
  "searching = \<lparr>m_screenName = ''DELL U2412M'', m_found = False,
     m_reloader = \<lparr>interval = 1000, singleShot = False, active = True\<rparr>,
     screen = panel, windowGeometry = (0, 0, 1440, 900),
     emitted = [screenNameChanged ''DELL U2412M'']\<rparr>"


section \<open>The preview adapter: \<open>QQuickPreviewAdapter.cpp\<close>\<close>

type_synonym QSize = "int \<times> int"

type_synonym GLuint = "32 word"

text \<open>
  Modelled from the spec: the class \<open>Chain\<close> is not among the sources. ``Represents one
  rendering context at a fixed resolution''; \<open>Chain(resolution)\<close> ``exposes resolution as
  read-only''. A \<open>Chain\<close> object is given by its address and the size it was constructed
  with; its GPU resources are not modelled. A \<open>QSharedPointer<Chain>\<close> is \<open>None\<close> when
  null.
\<close>

record Chain =
  chain_ptr :: nat
  chain_size :: QSize

type_synonym ChainPtr = "Chain option"

text \<open>
  Modelled from the spec: the class \<open>Model\<close> (\<open>Model.h\<close>, \<open>Model.cpp\<close>) is not among the
  sources. It owns the canonical node set, edge set and active-chain set; a node has an identifier, a fixed
  number of input slots, parameters and one cached output texture per chain; an edge is
  \<open>(fromNode, toNode, toInputIndex)\<close>.
\<close>

record VideoNode =
  nodeId :: int
  inputCount :: nat
  parameters :: "(string \<times> int) list"

record ModelEdge =
  fromNode :: int
  toNode :: int
  toInputIndex :: nat

record Model =
  m_vertices :: "VideoNode list"
  m_edges :: "ModelEdge list"
  m_chains :: "ChainPtr list"
  m_textures :: "ChainPtr \<Rightarrow> (int \<rightharpoonup> GLuint)"

text \<open>
  Modelled from the spec: \<open>Model::addChain\<close> and \<open>Model::removeChain\<close>, not among the sources:
  ``register/unregister a render target; removing a chain releases every node's cached texture
  for that chain''. The registry is kept without repetitions.
\<close>

definition addChain :: "ChainPtr \<Rightarrow> Model \<Rightarrow> Model" where
  "addChain chain m = (if chain \<in> set (m_chains m) then m else m\<lparr>m_chains := m_chains m @ [chain]\<rparr>)"

definition removeChain :: "ChainPtr \<Rightarrow> Model \<Rightarrow> Model" where
  "removeChain chain m =
     m\<lparr>m_chains := removeAll chain (m_chains m), m_textures := (m_textures m)(chain := Map.empty)\<rparr>"

text \<open>
  Modelled from the spec: the render snapshot returned by \<open>Model::createCopyForRendering\<close>, not
  among the sources: ``an immutable, independently-owned copy of the node/edge topology and
  current parameter values, taken at a specific point in time''.
\<close>

record ModelCopyForRendering =
  copy_vertices :: "VideoNode list"
  copy_edges :: "ModelEdge list"

definition createCopyForRendering :: "ChainPtr \<Rightarrow> Model \<Rightarrow> ModelCopyForRendering" where
  "createCopyForRendering chain m = \<lparr>copy_vertices = m_vertices m, copy_edges = m_edges m\<rparr>"

text \<open>
  The objects the adapter points to: the \<open>Model\<close> at every address, and the address the next
  \<open>new Chain\<close> returns. Lifetimes of models are not modelled.
\<close>

record heap =
  models :: "nat \<Rightarrow> Model"
  next_chain :: nat

definition new_Chain :: "QSize \<Rightarrow> heap \<Rightarrow> ChainPtr \<times> heap" where
  "new_Chain sz h = (Some \<lparr>chain_ptr = next_chain h, chain_size = sz\<rparr>, h\<lparr>next_chain := Suc (next_chain h)\<rparr>)"

definition on_model :: "nat \<Rightarrow> (Model \<Rightarrow> Model) \<Rightarrow> heap \<Rightarrow> heap" where
  "on_model p f h = h\<lparr>models := (models h)(p := f (models h p))\<rparr>"

datatype adapter_signal =
  modelChanged "nat option"
  | previewSizeChanged QSize
  | previewWindowChanged "nat option"

text \<open>
  What the adapter does besides writing its members, in program order: taking and releasing
  \<open>m_previewLock\<close>, calls into the model, signals.
\<close>

datatype event =
  Locked
  | Unlocked
  | Called_removeChain nat ChainPtr
  | Called_addChain nat ChainPtr
  | Emitted adapter_signal

text \<open>
  \<open>Q_ASSERT(cond)\<close> ends the program when \<open>cond\<close> is false, unless the build defines
  \<open>QT_NO_DEBUG\<close>, where it expands to nothing. The parameter \<open>debug\<close> of the operations
  below says that assertions are compiled in. The assertions on the calling thread are not
  modelled. Calling a method through a null \<open>m_model\<close> is the other failure.
\<close>

datatype failure = AssertionFailed | NullDereference

record QQuickPreviewAdapter =
  m_model :: "nat option"
  m_hasPreview :: bool
  m_previewSize :: QSize
  m_previewWindow :: "nat option"
  m_previewChain :: ChainPtr
  m_lastPreviewRender :: "int \<rightharpoonup> GLuint"
  trace :: "event list"

definition QQuickPreviewAdapter_new :: "bool \<Rightarrow> heap \<Rightarrow> QQuickPreviewAdapter \<times> heap" where
  "QQuickPreviewAdapter_new hasPreview h =
     (let a = \<lparr>m_model = None, m_hasPreview = hasPreview, m_previewSize = (300, 300),
                m_previewWindow = None, m_previewChain = None, m_lastPreviewRender = Map.empty,
                trace = []\<rparr>
      in if m_hasPreview a then
           (case new_Chain (m_previewSize a) h of (chain, h') \<Rightarrow> (a\<lparr>m_previewChain := chain\<rparr>, h'))
         else (a, h))"

text \<open>The destructor; the adapter is gone afterwards, the heap stays.\<close>

definition QQuickPreviewAdapter_delete :: "QQuickPreviewAdapter \<times> heap \<Rightarrow> heap" where
  "QQuickPreviewAdapter_delete st =
     (case st of (a, h) \<Rightarrow>
        (case m_model a of
           Some p \<Rightarrow> if m_hasPreview a then on_model p (removeChain (m_previewChain a)) h else h
         | None \<Rightarrow> h))"

definition setModel :: "nat option \<Rightarrow> QQuickPreviewAdapter \<times> heap \<Rightarrow> QQuickPreviewAdapter \<times> heap" where
  "setModel model st =
     (case st of (a, h) \<Rightarrow>
        if m_model a \<noteq> model then
          let (a1, h1) =
                (case m_model a of
                   Some p \<Rightarrow>
                     if m_hasPreview a then
                       (a\<lparr>trace := trace a @ [Called_removeChain p (m_previewChain a)]\<rparr>,
                        on_model p (removeChain (m_previewChain a)) h)
                     else (a, h)
                 | None \<Rightarrow> (a, h));
              a2 = a1\<lparr>m_model := model\<rparr>;
              (a3, h3) =
                (case m_model a2 of
                   Some p \<Rightarrow>
                     if m_hasPreview a2 then
                       (a2\<lparr>trace := trace a2 @ [Called_addChain p (m_previewChain a2)]\<rparr>,
                        on_model p (addChain (m_previewChain a2)) h1)
                     else (a2, h1)
                 | None \<Rightarrow> (a2, h1))
          in (a3\<lparr>trace := trace a3 @ [Emitted (modelChanged model)]\<rparr>, h3)
        else (a, h))"

definition setPreviewSize ::
  "bool \<Rightarrow> QSize \<Rightarrow> QQuickPreviewAdapter \<times> heap \<Rightarrow> failure + QQuickPreviewAdapter \<times> heap" where
  "setPreviewSize debug sz st =
     (case st of (a, h) \<Rightarrow>
        if debug \<and> \<not> m_hasPreview a then Inl AssertionFailed
        else if sz \<noteq> m_previewSize a then
          let a1 = a\<lparr>trace := trace a @ [Locked]\<rparr>;
              a2 = a1\<lparr>m_previewSize := sz\<rparr>;
              (previewChain, h1) = new_Chain sz h;
              (a3, h3) =
                (case m_model a2 of
                   Some p \<Rightarrow>
                     (a2\<lparr>trace := trace a2 @ [Called_removeChain p (m_previewChain a2),
                                               Called_addChain p previewChain]\<rparr>,
                      on_model p (addChain previewChain)
                        (on_model p (removeChain (m_previewChain a2)) h1))
                 | None \<Rightarrow> (a2, h1));
              a4 = a3\<lparr>m_previewChain := previewChain\<rparr>;
              a5 = a4\<lparr>trace := trace a4 @ [Unlocked]\<rparr>
          in Inr (a5\<lparr>trace := trace a5 @ [Emitted (previewSizeChanged sz)]\<rparr>, h3)
        else Inr (a, h))"

text \<open>
  \<open>setPreviewWindow\<close>: \<open>m_previewWindow\<close> is the window whose \<open>beforeSynchronizing\<close> signal is
  connected to \<open>onBeforeSynchronizing\<close>.
\<close>

definition setPreviewWindow ::
  "bool \<Rightarrow> nat option \<Rightarrow> QQuickPreviewAdapter \<times> heap \<Rightarrow> failure + QQuickPreviewAdapter \<times> heap" where
  "setPreviewWindow debug window st =
     (case st of (a, h) \<Rightarrow>
        if debug \<and> \<not> m_hasPreview a then Inl AssertionFailed
        else Inr (a\<lparr>m_previewWindow := window,
                    trace := trace a @ [Locked, Unlocked, Emitted (previewWindowChanged window)]\<rparr>, h))"

text \<open>
  \<open>onBeforeSynchronizing\<close>. \<open>ModelCopyForRendering::render\<close> is not among the sources and is
  the parameter \<open>render\<close>: from a snapshot and a chain to the \<open>QMap<int, GLuint>\<close> of textures.
\<close>

definition onBeforeSynchronizing ::
  "bool \<Rightarrow> (ModelCopyForRendering \<Rightarrow> ChainPtr \<Rightarrow> (int \<rightharpoonup> GLuint)) \<Rightarrow> QQuickPreviewAdapter \<times> heap
     \<Rightarrow> failure + QQuickPreviewAdapter \<times> heap" where
  "onBeforeSynchronizing debug render st =
     (case st of (a, h) \<Rightarrow>
        if debug \<and> \<not> m_hasPreview a then Inl AssertionFailed
        else
          (case m_model a of
             None \<Rightarrow> Inl NullDereference
           | Some p \<Rightarrow>
               let modelCopy = createCopyForRendering (m_previewChain a) (models h p)
               in Inr (a\<lparr>m_lastPreviewRender := render modelCopy (m_previewChain a)\<rparr>, h)))"

text \<open>\<open>QMap::value(key, defaultValue)\<close>.\<close>

definition QMap_value :: "('k \<rightharpoonup> 'v) \<Rightarrow> 'k \<Rightarrow> 'v \<Rightarrow> 'v" where
  "QMap_value m k defaultValue = (case m k of None \<Rightarrow> defaultValue | Some v \<Rightarrow> v)"

text \<open>\<open>previewTexture\<close> is not a \<open>const\<close> method: it returns the adapter next to the texture.\<close>

definition previewTexture ::
  "bool \<Rightarrow> int \<Rightarrow> QQuickPreviewAdapter \<Rightarrow> failure + GLuint \<times> QQuickPreviewAdapter" where
  "previewTexture debug videoNodeId a =
     (if debug \<and> \<not> m_hasPreview a then Inl AssertionFailed
      else Inr (QMap_value (m_lastPreviewRender a) videoNodeId 0, a))"

subsection \<open>The live model and the render snapshot as objects\<close>

text \<open>
  Modelled from the spec: \<open>Model.cpp\<close> and \<open>VideoNode.cpp\<close> are not among the sources. Above, a
  \<open>Model\<close> is the value of its node list. Here the nodes are objects: a model and a snapshot
  hold pointers to \<open>VideoNode\<close> objects, and whoever holds a pointer reads what the object
  contains at the time of reading. The spec's mutation API writes through the pointers of the
  live model; \<open>render\<close> reads through the pointers of the snapshot. Whether a change of the
  live model shows in a render therefore depends on which objects the snapshot points to.
\<close>

record ModelObject =
  vertex_ptrs :: "nat list"
  obj_edges :: "ModelEdge list"
  obj_chains :: "ChainPtr list"
  obj_textures :: "ChainPtr \<Rightarrow> (int \<rightharpoonup> GLuint)"

record objects =
  videoNodes :: "nat \<Rightarrow> VideoNode option"
  modelObjects :: "nat \<Rightarrow> ModelObject"
  next_object :: nat

text \<open>\<open>new VideoNode\<close>: a new object at an address not used before.\<close>

definition new_VideoNode :: "VideoNode \<Rightarrow> objects \<Rightarrow> nat \<times> objects" where
  "new_VideoNode v st =
     (next_object st,
      st\<lparr>videoNodes := (videoNodes st)(next_object st \<mapsto> v), next_object := Suc (next_object st)\<rparr>)"

definition on_modelObject :: "nat \<Rightarrow> (ModelObject \<Rightarrow> ModelObject) \<Rightarrow> objects \<Rightarrow> objects" where
  "on_modelObject p f st = st\<lparr>modelObjects := (modelObjects st)(p := f (modelObjects st p))\<rparr>"

text \<open>The node of the model at \<open>p\<close> with a given identifier: its address and its contents.\<close>

definition find_node :: "objects \<Rightarrow> nat \<Rightarrow> int \<Rightarrow> (nat \<times> VideoNode) option" where
  "find_node st p i =
     find (\<lambda>qv. nodeId (snd qv) = i)
       (List.map_filter (\<lambda>q. map_option (Pair q) (videoNodes st q)) (vertex_ptrs (modelObjects st p)))"

text \<open>
  Modelled from the spec: the cycle test of \<open>addEdge\<close>, ``checked via reachability from \<open>to\<close>
  to \<open>from\<close> before insertion''. A path uses every edge at most once, so as many rounds
  as there are edges reach everything reachable.
\<close>

fun reachable_from :: "nat \<Rightarrow> ModelEdge list \<Rightarrow> int list \<Rightarrow> int list" where
  "reachable_from 0 es xs = xs"
| "reachable_from (Suc n) es xs =
     reachable_from n es (xs @ map toNode (filter (\<lambda>e. fromNode e \<in> set xs) es))"

definition would_create_cycle :: "ModelEdge list \<Rightarrow> ModelEdge \<Rightarrow> bool" where
  "would_create_cycle es e \<longleftrightarrow> fromNode e \<in> set (reachable_from (length es) es [toNode e])"

text \<open>
  Modelled from the spec: the mutation API of section 4.3 and the parameter edits of sections
  2 and 6, on the model at address \<open>p\<close>. \<open>addNode\<close> creates a node object with a fresh
  identifier (its address) and no edge; \<open>removeNode\<close> also removes the edges touching the
  node and releases its cached textures for every chain; \<open>addEdge\<close> fails with
  \<open>InvalidInput\<close>, \<open>SlotOccupied\<close> or \<open>CycleDetected\<close>; a parameter edit writes the node
  object that the model points to. An unknown identifier is \<open>NotFound\<close>. A failed call
  leaves everything as it was.
\<close>

datatype mutation =
  AddNode nat "(string \<times> int) list"
  | RemoveNode int
  | AddEdge ModelEdge
  | RemoveEdge ModelEdge
  | SetParameter int string int
  | AddChain ChainPtr
  | RemoveChain ChainPtr

datatype structural_error = NotFound | InvalidInput | SlotOccupied | CycleDetected

fun apply_mutation :: "nat \<Rightarrow> mutation \<Rightarrow> objects \<Rightarrow> structural_error + objects" where
  "apply_mutation p (AddNode n ps) st =
     (case new_VideoNode \<lparr>nodeId = int (next_object st), inputCount = n, parameters = ps\<rparr> st of
        (q, st') \<Rightarrow> Inr (on_modelObject p (\<lambda>m. m\<lparr>vertex_ptrs := vertex_ptrs m @ [q]\<rparr>) st'))"
| "apply_mutation p (RemoveNode i) st =
     (case find_node st p i of
        None \<Rightarrow> Inl NotFound
      | Some (q, v) \<Rightarrow>
          Inr (on_modelObject p
                 (\<lambda>m. m\<lparr>vertex_ptrs := removeAll q (vertex_ptrs m),
                        obj_edges := filter (\<lambda>e. fromNode e \<noteq> i \<and> toNode e \<noteq> i) (obj_edges m),
                        obj_textures := (\<lambda>c. (obj_textures m c)(i := None))\<rparr>) st))"
| "apply_mutation p (AddEdge e) st =
     (case find_node st p (fromNode e) of
        None \<Rightarrow> Inl NotFound
      | Some (q', v') \<Rightarrow>
          (case find_node st p (toNode e) of
             None \<Rightarrow> Inl NotFound
           | Some (q, v) \<Rightarrow>
               if inputCount v \<le> toInputIndex e then Inl InvalidInput
               else if list_ex (\<lambda>e'. toNode e' = toNode e \<and> toInputIndex e' = toInputIndex e)
                         (obj_edges (modelObjects st p)) then Inl SlotOccupied
               else if would_create_cycle (obj_edges (modelObjects st p)) e then Inl CycleDetected
               else Inr (on_modelObject p (\<lambda>m. m\<lparr>obj_edges := obj_edges m @ [e]\<rparr>) st)))"
| "apply_mutation p (RemoveEdge e) st =
     (if e \<in> set (obj_edges (modelObjects st p)) then
        Inr (on_modelObject p (\<lambda>m. m\<lparr>obj_edges := removeAll e (obj_edges m)\<rparr>) st)
      else Inl NotFound)"
| "apply_mutation p (SetParameter i k x) st =
     (case find_node st p i of
        None \<Rightarrow> Inl NotFound
      | Some (q, v) \<Rightarrow>
          Inr (st\<lparr>videoNodes := (videoNodes st)
                 (q \<mapsto> v\<lparr>parameters := (k, x) # filter (\<lambda>kx. fst kx \<noteq> k) (parameters v)\<rparr>)\<rparr>))"
| "apply_mutation p (AddChain chain) st =
     Inr (on_modelObject p
            (\<lambda>m. if chain \<in> set (obj_chains m) then m else m\<lparr>obj_chains := obj_chains m @ [chain]\<rparr>) st)"
| "apply_mutation p (RemoveChain chain) st =
     Inr (on_modelObject p
            (\<lambda>m. m\<lparr>obj_chains := removeAll chain (obj_chains m),
                   obj_textures := (obj_textures m)(chain := Map.empty)\<rparr>) st)"

text \<open>
  Modelled from the spec: \<open>Model::createCopyForRendering\<close> on objects. The snapshot is
  ``independently-owned'' and must ``not alias mutable state in the live Model'': every node
  of the live model is copied into a new object, in order, and the snapshot points to the new
  objects; the edges are copied as values.
\<close>

record ModelCopyObject =
  copied_ptrs :: "nat list"
  copied_edges :: "ModelEdge list"

fun copy_nodes :: "nat list \<Rightarrow> objects \<Rightarrow> failure + nat list \<times> objects" where
  "copy_nodes [] st = Inr ([], st)"
| "copy_nodes (q # qs) st =
     (case videoNodes st q of
        None \<Rightarrow> Inl NullDereference
      | Some v \<Rightarrow>
          (case new_VideoNode v st of
             (q', st') \<Rightarrow>
               (case copy_nodes qs st' of
                  Inl err \<Rightarrow> Inl err
                | Inr (ps, st'') \<Rightarrow> Inr (q' # ps, st''))))"

definition createCopyForRendering_objects ::
  "ChainPtr \<Rightarrow> nat \<Rightarrow> objects \<Rightarrow> failure + ModelCopyObject \<times> objects" where
  "createCopyForRendering_objects chain p st =
     (case copy_nodes (vertex_ptrs (modelObjects st p)) st of
        Inl err \<Rightarrow> Inl err
      | Inr (ps, st') \<Rightarrow>
          Inr (\<lparr>copied_ptrs = ps, copied_edges = obj_edges (modelObjects st p)\<rparr>, st'))"

text \<open>
  \<open>render\<close> on a snapshot of pointers: the nodes are read when the render runs, and the
  parameter \<open>render\<close> is applied to what is read.
\<close>

fun read_nodes :: "objects \<Rightarrow> nat list \<Rightarrow> failure + VideoNode list" where
  "read_nodes st [] = Inr []"
| "read_nodes st (q # qs) =
     (case videoNodes st q of
        None \<Rightarrow> Inl NullDereference
      | Some v \<Rightarrow>
          (case read_nodes st qs of
             Inl err \<Rightarrow> Inl err
           | Inr vs \<Rightarrow> Inr (v # vs)))"

definition render_objects ::
  "(ModelCopyForRendering \<Rightarrow> ChainPtr \<Rightarrow> (int \<rightharpoonup> GLuint)) \<Rightarrow> objects \<Rightarrow> ModelCopyObject \<Rightarrow> ChainPtr
     \<Rightarrow> failure + (int \<rightharpoonup> GLuint)" where
  "render_objects render st modelCopy chain =
     (case read_nodes st (copied_ptrs modelCopy) of
        Inl err \<Rightarrow> Inl err
      | Inr vs \<Rightarrow> Inr (render \<lparr>copy_vertices = vs, copy_edges = copied_edges modelCopy\<rparr> chain))"

text \<open>\<open>onBeforeSynchronizing\<close> on objects: the same two statements.\<close>

definition onBeforeSynchronizing_objects ::
  "bool \<Rightarrow> (ModelCopyForRendering \<Rightarrow> ChainPtr \<Rightarrow> (int \<rightharpoonup> GLuint)) \<Rightarrow> QQuickPreviewAdapter \<times> objects
     \<Rightarrow> failure + QQuickPreviewAdapter \<times> objects" where
  "onBeforeSynchronizing_objects debug render st =
     (case st of (a, s) \<Rightarrow>
        if debug \<and> \<not> m_hasPreview a then Inl AssertionFailed
        else
          (case m_model a of
             None \<Rightarrow> Inl NullDereference
           | Some p \<Rightarrow>
               (case createCopyForRendering_objects (m_previewChain a) p s of
                  Inl err \<Rightarrow> Inl err
                | Inr (modelCopy, s') \<Rightarrow>
                    (case render_objects render s' modelCopy (m_previewChain a) of
                       Inl err \<Rightarrow> Inl err
                     | Inr result \<Rightarrow> Inr (a\<lparr>m_lastPreviewRender := result\<rparr>, s')))))"

text \<open>
  The two statements of \<open>onBeforeSynchronizing\<close> as separate steps, with calls of the mutation
  API, on any model, in between. A call that fails changes nothing. The third component of
  the state is the local variable \<open>modelCopy\<close>.
\<close>

datatype preview_event =
  CopyCreated
  | ModelMutated nat mutation
  | Rendered

type_synonym render_state = "QQuickPreviewAdapter \<times> objects \<times> ModelCopyObject option"

fun preview_step ::
  "bool \<Rightarrow> (ModelCopyForRendering \<Rightarrow> ChainPtr \<Rightarrow> (int \<rightharpoonup> GLuint)) \<Rightarrow> preview_event
     \<Rightarrow> render_state \<Rightarrow> failure + render_state" where
  "preview_step debug render CopyCreated (a, s, c) =
     (if debug \<and> \<not> m_hasPreview a then Inl AssertionFailed
      else
        (case m_model a of
           None \<Rightarrow> Inl NullDereference
         | Some p \<Rightarrow>
             (case createCopyForRendering_objects (m_previewChain a) p s of
                Inl err \<Rightarrow> Inl err
              | Inr (modelCopy, s') \<Rightarrow> Inr (a, s', Some modelCopy))))"
| "preview_step debug render (ModelMutated p m) (a, s, c) =
     (case apply_mutation p m s of
        Inl err \<Rightarrow> Inr (a, s, c)
      | Inr s' \<Rightarrow> Inr (a, s', c))"
| "preview_step debug render Rendered (a, s, c) =
     (case c of
        None \<Rightarrow> Inl NullDereference
      | Some modelCopy \<Rightarrow>
          (case render_objects render s modelCopy (m_previewChain a) of
             Inl err \<Rightarrow> Inl err
           | Inr result \<Rightarrow> Inr (a\<lparr>m_lastPreviewRender := result\<rparr>, s, None)))"

fun preview_steps ::
  "bool \<Rightarrow> (ModelCopyForRendering \<Rightarrow> ChainPtr \<Rightarrow> (int \<rightharpoonup> GLuint)) \<Rightarrow> preview_event list
     \<Rightarrow> render_state \<Rightarrow> failure + render_state" where
  "preview_steps debug render [] st = Inr st"
| "preview_steps debug render (ev # evs) st =
     (case preview_step debug render ev st of
        Inl err \<Rightarrow> Inl err
      | Inr st' \<Rightarrow> preview_steps debug render evs st')"

text \<open>
  The model of values that a state of objects stands for, and the two conditions on a state
  of objects: every node pointer of a live model was returned by an earlier \<open>new\<close>, and
  points to an object.
\<close>

definition Model_of :: "objects \<Rightarrow> nat \<Rightarrow> Model" where
  "Model_of st p =
     \<lparr>m_vertices = List.map_filter (videoNodes st) (vertex_ptrs (modelObjects st p)),
      m_edges = obj_edges (modelObjects st p),
      m_chains = obj_chains (modelObjects st p),
      m_textures = obj_textures (modelObjects st p)\<rparr>"

definition objects_allocated :: "objects \<Rightarrow> bool" where
  "objects_allocated st \<longleftrightarrow> (\<forall>p. \<forall>q\<in>set (vertex_ptrs (modelObjects st p)). q < next_object st)"

definition no_dangling :: "objects \<Rightarrow> nat \<Rightarrow> bool" where
  "no_dangling st p \<longleftrightarrow> (\<forall>q\<in>set (vertex_ptrs (modelObjects st p)). videoNodes st q \<noteq> None)"

text \<open>The objects of a snapshot are allocated and no live model points to any of them.\<close>

definition snapshot_separate :: "nat list \<Rightarrow> objects \<Rightarrow> bool" where
  "snapshot_separate ps st \<longleftrightarrow>
     (\<forall>q\<in>set ps. q < next_object st \<and> (\<forall>p. q \<notin> set (vertex_ptrs (modelObjects st p))))"

text \<open>
  The chain of the adapter is registered with the model at \<open>p\<close> exactly when \<open>p\<close> is the
  adapter's model.
\<close>

definition registered_exactly :: "QQuickPreviewAdapter \<Rightarrow> heap \<Rightarrow> bool" where
  "registered_exactly a h \<longleftrightarrow>
     (\<forall>p. (m_previewChain a \<in> set (m_chains (models h p))) = (m_model a = Some p))"

text \<open>
  Every chain that exists was returned by an earlier \<open>new Chain\<close>: the adapter's own and the
  registered ones.
\<close>

definition allocated :: "heap \<Rightarrow> ChainPtr \<Rightarrow> bool" where
  "allocated h chain = (case chain of None \<Rightarrow> True | Some c \<Rightarrow> chain_ptr c < next_chain h)"

definition chains_allocated :: "QQuickPreviewAdapter \<Rightarrow> heap \<Rightarrow> bool" where
  "chains_allocated a h \<longleftrightarrow>
     allocated h (m_previewChain a) \<and> (\<forall>p. \<forall>c\<in>set (m_chains (models h p)). allocated h c)"

text \<open>
  An empty model at every address. An adapter with a preview whose chain is registered with the
  model at address 3, which holds one effect node with identifier 7. A renderer that gives
  every node of the snapshot the texture 42.
\<close>

definition empty_heap :: heap where
  "empty_heap = \<lparr>models = (\<lambda>p. \<lparr>m_vertices = [], m_edges = [], m_chains = [],
                                  m_textures = (\<lambda>c. Map.empty)\<rparr>),
                 next_chain = 0\<rparr>"

definition sample_adapter :: QQuickPreviewAdapter where
  "sample_adapter = \<lparr>m_model = Some 3, m_hasPreview = True, m_previewSize = (300, 300),
     m_previewWindow = None, m_previewChain = Some \<lparr>chain_ptr = 0, chain_size = (300, 300)\<rparr>,
     m_lastPreviewRender = Map.empty, trace = []\<rparr>"

definition sample_heap :: heap where
  "sample_heap = \<lparr>models = (\<lambda>p.
       \<lparr>m_vertices = (if p = 3 then [\<lparr>nodeId = 7, inputCount = 1, parameters = []\<rparr>] else []),
        m_edges = [],
        m_chains = (if p = 3 then [Some \<lparr>chain_ptr = 0, chain_size = (300, 300)\<rparr>] else []),
        m_textures = (\<lambda>c. Map.empty)\<rparr>),
     next_chain = 1\<rparr>"

definition sample_render :: "ModelCopyForRendering \<Rightarrow> ChainPtr \<Rightarrow> (int \<rightharpoonup> GLuint)" where
  "sample_render modelCopy chain = map_of (map (\<lambda>v. (nodeId v, 42)) (copy_vertices modelCopy))"

text \<open>
  The same model as objects: the node with identifier 7, intensity 1, is the object at address
  0 and the model at address 3 points to it. A renderer whose texture for a node is the node's
  intensity.
\<close>

definition sample_objects :: objects where
  "sample_objects =
     \<lparr>videoNodes = (\<lambda>q. if q = 0 then Some \<lparr>nodeId = 7, inputCount = 1,
                                               parameters = [(''intensity'', 1)]\<rparr> else None),
      modelObjects = (\<lambda>p. \<lparr>vertex_ptrs = (if p = 3 then [0] else []), obj_edges = [],
                            obj_chains = (if p = 3 then [Some \<lparr>chain_ptr = 0, chain_size = (300, 300)\<rparr>]
                                          else []),
                            obj_textures = (\<lambda>c. Map.empty)\<rparr>),
      next_object = 1\<rparr>"

definition intensity_render :: "ModelCopyForRendering \<Rightarrow> ChainPtr \<Rightarrow> (int \<rightharpoonup> GLuint)" where
  "intensity_render modelCopy chain =
     map_of (map (\<lambda>v. (nodeId v, case map_of (parameters v) ''intensity'' of
                                      None \<Rightarrow> 0 | Some x \<Rightarrow> word_of_int x))
               (copy_vertices modelCopy))"


section \<open>Properties of the edge pre-pass\<close>

lemma process_edges_append:
  "process_edges st (xs @ ys) =
     (case process_edges st xs of Inl err \<Rightarrow> Inl err | Inr st' \<Rightarrow> process_edges st' ys)"
  by (induction xs arbitrary: st) (auto split: sum.splits)

lemma process_edge_InrD:
  assumes "process_edge (up, start) e = Inr (up', start')"
  shows "0 \<le> toVertex e" "nat (toVertex e) < length up"
    "0 \<le> toInput e" "nat (toInput e) < length (up ! nat (toVertex e))"
    "up ! nat (toVertex e) ! nat (toInput e) = None"
    "up' = up[nat (toVertex e) := (up ! nat (toVertex e))[nat (toInput e) := Some (fromVertex e)]]"
    "start' = remove1 (fromVertex e) start"
  using assms by (auto simp: process_edge_def Let_def split: if_splits)

lemma process_edge_shape:
  assumes "process_edge (up, start) e = Inr (up', start')"
  shows "map length up' = map length up"
  using process_edge_InrD[OF assms]
  by (auto simp: list_eq_iff_nth_eq nth_list_update)


lemma same_shape_length: "map length a = map length b \<Longrightarrow> length a = length b"
  by (rule map_eq_imp_length_eq)

lemma same_shape_nth:
  assumes "map length a = map length b" "v < length a"
  shows "length (a ! v) = length (b ! v)"
proof -
  have "length a = length b" using assms(1) by (rule map_eq_imp_length_eq)
  then have "v < length b" using assms(2) by simp
  have "map length a ! v = map length b ! v" using assms(1) by simp
  then show ?thesis using assms(2) \<open>v < length b\<close> by simp
qed

lemma process_edges_shape:
  "process_edges st es = Inr st' \<Longrightarrow> map length (fst st') = map length (fst st)"
proof (induction es arbitrary: st)
  case Nil then show ?case by simp
next
  case (Cons e es)
  then obtain st1 where 1: "process_edge st e = Inr st1" and 2: "process_edges st1 es = Inr st'"
    by (auto split: sum.splits)
  from 1 have "map length (fst st1) = map length (fst st)"
    using process_edge_shape[of "fst st" "snd st" e "fst st1" "snd st1"] by simp
  with Cons.IH[OF 2] show ?case by simp
qed

lemma process_edge_keeps:
  assumes "process_edge (up, start) e = Inr (up', start')"
    and "v < length up" "k < length (up ! v)" "up ! v ! k = Some x"
  shows "up' ! v ! k = Some x"
  using process_edge_InrD[OF assms(1)] assms(2-)
  by (cases "v = nat (toVertex e)"; cases "k = nat (toInput e)") (auto simp: nth_list_update)

lemma process_edges_keeps:
  "process_edges st es = Inr st' \<Longrightarrow> v < length (fst st) \<Longrightarrow> k < length (fst st ! v) \<Longrightarrow>
   fst st ! v ! k = Some x \<Longrightarrow> fst st' ! v ! k = Some x"
proof (induction es arbitrary: st)
  case Nil then show ?case by simp
next
  case (Cons e es)
  then obtain st1 where 1: "process_edge st e = Inr st1" and 2: "process_edges st1 es = Inr st'"
    by (auto split: sum.splits)
  have sh: "map length (fst st1) = map length (fst st)"
    using process_edge_shape[of "fst st" "snd st" e "fst st1" "snd st1"] 1 by simp
  have k1: "fst st1 ! v ! k = Some x"
    using process_edge_keeps[of "fst st" "snd st" e "fst st1" "snd st1" v k x] 1 Cons.prems by simp
  have l1: "v < length (fst st1)" using same_shape_length[OF sh] Cons.prems(2) by simp
  have l2: "k < length (fst st1 ! v)" using same_shape_nth[OF sh l1] Cons.prems(3) by simp
  show ?case using Cons.IH[OF 2 l1 l2 k1] .
qed

lemma shape_init: "map length (upstreamNodeVertices_init vertices) = map (\<lambda>v. nat (nInputs v)) vertices"
  by (simp add: upstreamNodeVertices_init_def comp_def)

lemma modelChanged_edges_split:
  assumes "j < length edges"
  shows "modelChanged_edges vertices edges =
     (case process_edges (upstreamNodeVertices_init vertices, startNodeVertices_init vertices) (take j edges) of
        Inl err \<Rightarrow> Inl err
      | Inr st \<Rightarrow> (case process_edge st (edges ! j) of
           Inl err \<Rightarrow> Inl err
         | Inr st' \<Rightarrow> process_edges st' (drop (Suc j) edges)))"
proof -
  have "take j edges @ edges ! j # drop (Suc j) edges = edges"
    using assms by (rule id_take_nth_drop[symmetric])
  then have "modelChanged_edges vertices edges =
      process_edges (upstreamNodeVertices_init vertices, startNodeVertices_init vertices)
        (take j edges @ edges ! j # drop (Suc j) edges)"
    by (simp only: modelChanged_edges_def)
  then show ?thesis
    by (simp only: process_edges_append process_edges.simps split: sum.splits)
qed

lemma process_edge_out_of_arity:
  assumes "0 \<le> toVertex e" "nat (toVertex e) < length (fst st)"
    and "int (length (fst st ! nat (toVertex e))) \<le> toInput e"
  shows "process_edge st e = Inl (NonexistantInput (toInput e) (toVertex e))"
  using assms by (auto simp: process_edge_def Let_def)

lemma process_edge_occupied:
  assumes "0 \<le> toVertex e" "nat (toVertex e) < length (fst st)"
    and "0 \<le> toInput e" "nat (toInput e) < length (fst st ! nat (toVertex e))"
    and "fst st ! nat (toVertex e) ! nat (toInput e) = Some x"
  shows "process_edge st e = Inl (MultipleUpstream (toVertex e) (toInput e))"
  using assms by (auto simp: process_edge_def Let_def)

text \<open>
  C5. An edge whose input index is at least the number of inputs of its destination vertex is
  rejected: from every state the loop can be in, the step for that edge throws
  ``Model edge to nonexistant input'' and returns no state, so the edge is not connected; and
  \<open>modelChanged\<close> as a whole fails, with exactly this error when the edges before it were
  accepted. The destination has to be a vertex of the model (otherwise the failure is the
  \<open>TypeError\<close>); the number of inputs of a vertex is \<open>nInputs\<close>, or 0 when that is negative.
\<close>

theorem invalid_input_rejected:
  assumes j: "j < length edges"
    and v: "0 \<le> toVertex (edges ! j)" "toVertex (edges ! j) < int (length vertices)"
    and k: "max 0 (nInputs (vertices ! nat (toVertex (edges ! j)))) \<le> toInput (edges ! j)"
  shows "(\<exists>err. modelChanged_edges vertices edges = Inl err) \<and>
         (\<forall>st. process_edges (upstreamNodeVertices_init vertices, startNodeVertices_init vertices)
                 (take j edges) = Inr st \<longrightarrow>
            process_edge st (edges ! j)
              = Inl (NonexistantInput (toInput (edges ! j)) (toVertex (edges ! j))) \<and>
            modelChanged_edges vertices edges
              = Inl (NonexistantInput (toInput (edges ! j)) (toVertex (edges ! j))))"
proof -
  let ?init = "(upstreamNodeVertices_init vertices, startNodeVertices_init vertices)"
  let ?e = "edges ! j"
  have step: "process_edge st ?e = Inl (NonexistantInput (toInput ?e) (toVertex ?e))"
    if "process_edges ?init (take j edges) = Inr st" for st
  proof -
    have sh: "map length (fst st) = map (\<lambda>v. nat (nInputs v)) vertices"
      using process_edges_shape[OF that] shape_init by simp
    have len: "length (fst st) = length vertices"
      using arg_cong[OF sh, of length] by simp
    have lv: "nat (toVertex ?e) < length (fst st)"
      using len v by simp
    have "map length (fst st) ! nat (toVertex ?e) = map (\<lambda>v. nat (nInputs v)) vertices ! nat (toVertex ?e)"
      using sh by simp
    then have "length (fst st ! nat (toVertex ?e)) = nat (nInputs (vertices ! nat (toVertex ?e)))"
      using lv len by simp
    then have "int (length (fst st ! nat (toVertex ?e))) \<le> toInput ?e"
      using k by simp
    then show ?thesis using process_edge_out_of_arity v(1) lv by blast
  qed
  show ?thesis
  proof (cases "process_edges ?init (take j edges)")
    case (Inl err)
    then show ?thesis by (simp add: modelChanged_edges_split[OF j])
  next
    case (Inr st)
    with step[OF Inr] show ?thesis by (simp add: modelChanged_edges_split[OF j])
  qed
qed

text \<open>
  C4. When two edges of the list end at the same \<open>(toVertex, toInput)\<close>, \<open>modelChanged\<close> fails.
  If the edges before the second one were accepted, the failure is at the second one, with
  ``has multiple upstream vertices'', and at that moment the slot still holds the \<open>fromVertex\<close>
  of the first: no step has written to it again, so an input is never given a second upstream
  vertex.
\<close>

theorem second_edge_rejected:
  assumes ij: "i < j" "j < length edges"
    and same: "toVertex (edges ! i) = toVertex (edges ! j)" "toInput (edges ! i) = toInput (edges ! j)"
  shows "(\<exists>err. modelChanged_edges vertices edges = Inl err) \<and>
         (\<forall>st. process_edges (upstreamNodeVertices_init vertices, startNodeVertices_init vertices)
                 (take j edges) = Inr st \<longrightarrow>
            fst st ! nat (toVertex (edges ! j)) ! nat (toInput (edges ! j))
              = Some (fromVertex (edges ! i)) \<and>
            process_edge st (edges ! j)
              = Inl (MultipleUpstream (toVertex (edges ! j)) (toInput (edges ! j))) \<and>
            modelChanged_edges vertices edges
              = Inl (MultipleUpstream (toVertex (edges ! j)) (toInput (edges ! j))))"
proof -
  let ?init = "(upstreamNodeVertices_init vertices, startNodeVertices_init vertices)"
  let ?e = "edges ! j" and ?f = "edges ! i"
  let ?v = "nat (toVertex ?e)" and ?k = "nat (toInput ?e)"
  have step: "fst st ! ?v ! ?k = Some (fromVertex ?f) \<and>
      process_edge st ?e = Inl (MultipleUpstream (toVertex ?e) (toInput ?e))"
    if run: "process_edges ?init (take j edges) = Inr st" for st
  proof -
    have i': "i < length (take j edges)" using ij by simp
    have "take i (take j edges) @ take j edges ! i # drop (Suc i) (take j edges) = take j edges"
      using i' by (rule id_take_nth_drop[symmetric])
    moreover have "take i (take j edges) = take i edges" "take j edges ! i = ?f"
      using ij by (simp_all add: min_def)
    ultimately have spl: "take i edges @ ?f # drop (Suc i) (take j edges) = take j edges"
      by metis
    from run obtain st0 st1 where
      r0: "process_edges ?init (take i edges) = Inr st0" and
      r1: "process_edge st0 ?f = Inr st1" and
      r2: "process_edges st1 (drop (Suc i) (take j edges)) = Inr st"
    proof -
      from run have "process_edges ?init (take i edges @ ?f # drop (Suc i) (take j edges)) = Inr st"
        by (simp only: spl)
      then show ?thesis
        using that by (auto simp: process_edges_append split: sum.splits)
    qed
    obtain up0 s0 up1 s1 where st0: "st0 = (up0, s0)" and st1: "st1 = (up1, s1)"
      by (cases st0, cases st1)
    note d = process_edge_InrD[OF r1[unfolded st0 st1]]
    have sh1: "map length up1 = map length up0"
      using process_edge_shape[OF r1[unfolded st0 st1]] .
    have lv1: "?v < length up1" using d(2) same_shape_length[OF sh1] same by simp
    have lk1: "?k < length (up1 ! ?v)" using d(4) same_shape_nth[OF sh1 lv1] same by simp
    have slot1: "up1 ! ?v ! ?k = Some (fromVertex ?f)"
      using d same by (simp add: nth_list_update)
    have slot: "fst st ! ?v ! ?k = Some (fromVertex ?f)"
      using process_edges_keeps[OF r2, of ?v ?k "fromVertex ?f"] lv1 lk1 slot1 st1 by simp
    have sh: "map length (fst st) = map length up1"
      using process_edges_shape[OF r2] st1 by simp
    have lv: "?v < length (fst st)" using lv1 same_shape_length[OF sh] by simp
    have lk: "?k < length (fst st ! ?v)" using lk1 same_shape_nth[OF sh lv] by simp
    have "process_edge st ?e = Inl (MultipleUpstream (toVertex ?e) (toInput ?e))"
      using process_edge_occupied[of ?e st, OF _ lv _ lk slot] d(1,3) same by simp
    with slot show ?thesis by simp
  qed
  show ?thesis
  proof (cases "process_edges ?init (take j edges)")
    case (Inl err)
    then show ?thesis by (simp add: modelChanged_edges_split[OF ij(2)])
  next
    case (Inr st)
    with step[OF Inr] show ?thesis by (simp add: modelChanged_edges_split[OF ij(2)])
  qed
qed

lemma mousedown_ok:
  "modelChanged_edges mousedown_vertices mousedown_edges = Inr ([None] # [Some 0] # [Some 1] # [], [2])"
  by (simp add: modelChanged_edges_def mousedown_vertices_def mousedown_edges_def
      upstreamNodeVertices_init_def startNodeVertices_init_def process_edge_def Let_def upt_rec)

text \<open>The sample model with a third edge into input 1 of vertex 2, which has one input.\<close>

theorem invalid_input_rejected_witness:
  "modelChanged_edges mousedown_vertices
     (mousedown_edges @ [\<lparr>fromVertex = 0, toInput = 1, toVertex = 2\<rparr>])
   = Inl (NonexistantInput 1 2)"
  using invalid_input_rejected[of 2 "mousedown_edges @ [\<lparr>fromVertex = 0, toInput = 1, toVertex = 2\<rparr>]"
      mousedown_vertices] mousedown_ok
  by (simp add: mousedown_vertices_def mousedown_edges_def modelChanged_edges_def)

text \<open>The sample model with a third edge into input 0 of vertex 2, already fed by vertex 1.\<close>

theorem second_edge_rejected_witness:
  "modelChanged_edges mousedown_vertices
     (mousedown_edges @ [\<lparr>fromVertex = 0, toInput = 0, toVertex = 2\<rparr>])
   = Inl (MultipleUpstream 2 0)"
  using second_edge_rejected[of 1 2 "mousedown_edges @ [\<lparr>fromVertex = 0, toInput = 0, toVertex = 2\<rparr>]"
      mousedown_vertices] mousedown_ok
  by (simp add: mousedown_vertices_def mousedown_edges_def modelChanged_edges_def)


section \<open>Properties of the output window\<close>

subsection \<open>Two screens with the configured name\<close>

lemma reload_foreach_diverges:
  assumes nested: "\<And>w'. nested w' = None"
    and bad: "\<exists>t\<in>set ts. name t = m_screenName w \<and> ptr (screen w) \<noteq> ptr t"
  shows "reload_foreach nested ts found w = None"
  using bad
proof (induction ts arbitrary: found)
  case Nil
  then show ?case by simp
next
  case (Cons t ts)
  show ?case
  proof (cases "name t = m_screenName w")
    case False
    with Cons show ?thesis by auto
  next
    case True
    show ?thesis
    proof (cases "ptr (screen w) \<noteq> ptr t")
      case True
      with \<open>name t = m_screenName w\<close> show ?thesis
        by (simp add: setScreen_def onScreenChanged_def nested)
    next
      case False
      with Cons.prems have "\<exists>t\<in>set ts. name t = m_screenName w \<and> ptr (screen w) \<noteq> ptr t"
        by auto
      from Cons.IH[OF this] False \<open>name t = m_screenName w\<close> show ?thesis by simp
    qed
  qed
qed

lemma reload_diverges:
  assumes "s \<in> set screens" "t \<in> set screens" "name s = m_screenName w" "name t = m_screenName w"
    and "ptr s \<noteq> ptr t"
  shows "reload depth screens w = None"
  using assms(3,4)
proof (induction depth arbitrary: w)
  case 0
  show ?case by simp
next
  case (Suc depth)
  have nested: "\<And>w'. m_screenName w' = m_screenName w \<Longrightarrow> reload depth screens w' = None"
    using Suc by simp
  have bad: "\<exists>t\<in>set screens. name t = m_screenName w \<and> ptr (screen w) \<noteq> ptr t"
  proof (cases "ptr (screen w) = ptr s")
    case True
    then have "ptr (screen w) \<noteq> ptr t" using assms(5) by simp
    then show ?thesis using assms(2) Suc.prems(2) by blast
  next
    case False
    then show ?thesis using assms(1) Suc.prems(1) by blast
  qed
  have "reload_foreach (reload depth screens) ts found w = None"
    if "\<exists>t\<in>set ts. name t = m_screenName w \<and> ptr (screen w) \<noteq> ptr t" for ts found
    using that
  proof (induction ts arbitrary: found)
    case Nil
    then show ?case by simp
  next
    case (Cons u us)
    show ?case
    proof (cases "name u = m_screenName w")
      case False
      with Cons show ?thesis by auto
    next
      case True
      show ?thesis
      proof (cases "ptr (screen w) \<noteq> ptr u")
        case True
        have "reload depth screens (w\<lparr>screen := u, emitted := emitted w @ [screenChanged (ptr u)]\<rparr>) = None"
          by (rule nested) simp
        with True \<open>name u = m_screenName w\<close> show ?thesis
          by (simp add: setScreen_def onScreenChanged_def)
      next
        case False
        with Cons.prems have "\<exists>t\<in>set us. name t = m_screenName w \<and> ptr (screen w) \<noteq> ptr t"
          by auto
        from Cons.IH[OF this] False \<open>name u = m_screenName w\<close> show ?thesis by simp
      qed
    qed
  qed
  from this[OF bad] show ?case by (simp add: reload.simps(2))
qed

subsection \<open>At most one screen with the configured name\<close>

lemma reload_foreach_attached:
  assumes "\<forall>t\<in>set ts. name t = m_screenName w \<longrightarrow> ptr (screen w) = ptr t"
  shows "reload_foreach nested ts found w = Some (found \<or> (\<exists>t\<in>set ts. name t = m_screenName w), w)"
  using assms by (induction ts arbitrary: found) auto

lemma reload_attached:
  assumes "\<forall>t\<in>set screens. name t = m_screenName w \<longrightarrow> ptr (screen w) = ptr t"
  shows "reload (Suc depth) screens w =
           Some (reload_finish (\<exists>t\<in>set screens. name t = m_screenName w) w)"
  using reload_foreach_attached[OF assms, of "reload depth screens" False]
  by (simp add: reload.simps(2))

lemma setScreen_unique:
  assumes uniq: "\<And>s. s \<in> set screens \<Longrightarrow> name s = m_screenName w \<Longrightarrow> ptr s = ptr t"
    and t: "t \<in> set screens" "name t = m_screenName w"
  shows "setScreen (reload (Suc depth) screens) t w = Some (attach t w)"
proof -
  let ?w2 = "w\<lparr>screen := t, emitted := emitted w @ [screenChanged (ptr t)]\<rparr>"
  have "\<forall>s\<in>set screens. name s = m_screenName ?w2 \<longrightarrow> ptr (screen ?w2) = ptr s"
    using uniq by auto
  from reload_attached[OF this, of depth]
  have r: "reload (Suc depth) screens ?w2 =
      Some (reload_finish (\<exists>s\<in>set screens. name s = m_screenName ?w2) ?w2)" .
  have "\<exists>s\<in>set screens. name s = m_screenName ?w2" using t by auto
  with r have "reload (Suc depth) screens ?w2 = Some (reload_finish True ?w2)"
    by simp
  then show ?thesis
    by (simp add: setScreen_def onScreenChanged_def attach_def)
qed

lemma attach_fields:
  "m_screenName (attach t w) = m_screenName w" "screen (attach t w) = t"
  "windowGeometry (attach t w) = geometry t" "m_found (attach t w) = True"
  "m_reloader (attach t w) = m_reloader w"
  by (auto simp: attach_def putOnScreen_def reload_finish_def)

lemma reload_foreach_unique:
  assumes uniq: "\<And>s t. s \<in> set screens \<Longrightarrow> t \<in> set screens \<Longrightarrow> name s = m_screenName w \<Longrightarrow>
                   name t = m_screenName w \<Longrightarrow> ptr s = ptr t"
    and sub: "set ts \<subseteq> set screens"
  shows "reload_foreach (reload (Suc depth) screens) ts found w =
     (case find (\<lambda>t. name t = m_screenName w) ts of
        None \<Rightarrow> Some (found, w)
      | Some t \<Rightarrow> Some (True, if ptr (screen w) = ptr t then w else attach t w))"
  using sub
proof (induction ts arbitrary: found)
  case Nil
  then show ?case by simp
next
  case (Cons u us)
  show ?case
  proof (cases "name u = m_screenName w")
    case False
    with Cons show ?thesis by simp
  next
    case True
    have u: "u \<in> set screens" using Cons.prems by simp
    have rest: "\<forall>t\<in>set us. name t = m_screenName w \<longrightarrow> ptr u = ptr t"
    proof (intro ballI impI)
      fix t assume "t \<in> set us" "name t = m_screenName w"
      then have "t \<in> set screens" using Cons.prems by auto
      from uniq[OF u this True \<open>name t = m_screenName w\<close>] show "ptr u = ptr t" .
    qed
    show ?thesis
    proof (cases "ptr (screen w) = ptr u")
      case True
      with rest have "\<forall>t\<in>set us. name t = m_screenName w \<longrightarrow> ptr (screen w) = ptr t" by simp
      from reload_foreach_attached[OF this] True \<open>name u = m_screenName w\<close> show ?thesis by simp
    next
      case False
      have s: "setScreen (reload (Suc depth) screens) u w = Some (attach u w)"
      proof (rule setScreen_unique)
        fix s assume "s \<in> set screens" "name s = m_screenName w"
        from uniq[OF this(1) u this(2) True] show "ptr s = ptr u" .
      qed (use u True in auto)
      have "\<forall>t\<in>set us. name t = m_screenName (attach u w) \<longrightarrow> ptr (screen (attach u w)) = ptr t"
        using rest by (simp add: attach_fields)
      from reload_foreach_attached[OF this] False True s show ?thesis by simp
    qed
  qed
qed

lemma reload_unique:
  assumes uniq: "\<And>s t. s \<in> set screens \<Longrightarrow> t \<in> set screens \<Longrightarrow> name s = m_screenName w \<Longrightarrow>
                   name t = m_screenName w \<Longrightarrow> ptr s = ptr t"
  shows "reload (Suc (Suc depth)) screens w =
     Some (case find (\<lambda>t. name t = m_screenName w) screens of
        None \<Rightarrow> reload_finish False w
      | Some t \<Rightarrow> if ptr (screen w) = ptr t then reload_finish True w else attach t w)"
proof -
  have fin: "reload_finish True (attach t w) = attach t w" for t
    by (simp add: reload_finish_def attach_fields)
  have loop: "reload_foreach (reload (Suc depth) screens) screens False w =
     (case find (\<lambda>t. name t = m_screenName w) screens of
        None \<Rightarrow> Some (False, w)
      | Some t \<Rightarrow> Some (True, if ptr (screen w) = ptr t then w else attach t w))"
    by (rule reload_foreach_unique[OF uniq]) auto
  show ?thesis
  proof (cases "find (\<lambda>t. name t = m_screenName w) screens")
    case None
    with loop show ?thesis by (simp add: reload.simps(2)[of "Suc depth"])
  next
    case (Some t)
    with loop fin[of t] show ?thesis by (simp add: reload.simps(2)[of "Suc depth"])
  qed
qed

subsection \<open>What a poll leaves alone\<close>

lemma poll_frame_refl: "poll_frame w w"
  by (simp add: poll_frame_def)

lemma poll_frame_emittedE:
  assumes "poll_frame w w'"
  obtains extra where "emitted w' = emitted w @ extra" "filter is_screenNameChanged extra = []"
proof -
  let ?n = "length (emitted w)"
  from assms have t: "take ?n (emitted w') = emitted w"
    and f: "filter is_screenNameChanged (drop ?n (emitted w')) = []"
    by (simp_all add: poll_frame_def)
  have "take ?n (emitted w') @ drop ?n (emitted w') = emitted w'"
    by (rule append_take_drop_id)
  then have "emitted w' = emitted w @ drop ?n (emitted w')"
    by (simp only: t)
  from that[OF this f] show ?thesis .
qed

lemma poll_frameI:
  assumes "m_screenName w' = m_screenName w" "m_reloader w' = m_reloader w"
    "emitted w' = emitted w @ extra" "filter is_screenNameChanged extra = []"
  shows "poll_frame w w'"
  using assms by (simp add: poll_frame_def)

lemma poll_frame_trans:
  assumes "poll_frame a b" "poll_frame b c"
  shows "poll_frame a c"
proof -
  from assms(1) obtain e1 where e1: "emitted b = emitted a @ e1" "filter is_screenNameChanged e1 = []"
    by (rule poll_frame_emittedE)
  from assms(2) obtain e2 where e2: "emitted c = emitted b @ e2" "filter is_screenNameChanged e2 = []"
    by (rule poll_frame_emittedE)
  show ?thesis
  proof (rule poll_frameI)
    show "emitted c = emitted a @ (e1 @ e2)" using e1 e2 by simp
    show "filter is_screenNameChanged (e1 @ e2) = []" using e1 e2 by simp
  qed (use assms in \<open>simp_all add: poll_frame_def\<close>)
qed

lemma poll_frame_finish: "poll_frame w (reload_finish found w)"
  by (rule poll_frameI[where extra = "if found \<noteq> m_found w then [foundChanged found] else []"])
     (simp_all add: reload_finish_def)

lemma setScreen_frame:
  assumes nested: "\<And>v v'. nested v = Some v' \<Longrightarrow> poll_frame v v'"
    and "setScreen nested t w = Some w'"
  shows "poll_frame w w'"
proof -
  let ?w2 = "w\<lparr>screen := t, emitted := emitted w @ [screenChanged (ptr t)]\<rparr>"
  from assms(2) obtain w3 where 3: "nested ?w2 = Some w3" and w': "w' = putOnScreen w3"
    by (auto simp: setScreen_def onScreenChanged_def split: option.splits)
  have a: "poll_frame w ?w2"
    by (rule poll_frameI[where extra = "[screenChanged (ptr t)]"]) simp_all
  have b: "poll_frame ?w2 w3" using nested[OF 3] .
  have c: "poll_frame w3 w'"
    unfolding w' by (rule poll_frameI[where extra = "[]"]) (simp_all add: putOnScreen_def)
  from poll_frame_trans[OF poll_frame_trans[OF a b] c] show ?thesis .
qed

lemma reload_foreach_frame:
  assumes nested: "\<And>v v'. nested v = Some v' \<Longrightarrow> poll_frame v v'"
  shows "reload_foreach nested ts found w = Some (found', w') \<Longrightarrow> poll_frame w w'"
proof (induction ts arbitrary: found w)
  case Nil
  then show ?case by (simp add: poll_frame_refl)
next
  case (Cons t ts)
  show ?case
  proof (cases "name t = m_screenName w")
    case False
    with Cons show ?thesis by simp
  next
    case True
    show ?thesis
    proof (cases "ptr (screen w) \<noteq> ptr t")
      case False
      with True Cons show ?thesis by simp
    next
      case diff: True
      with True Cons.prems obtain w2 where
        s: "setScreen nested t w = Some w2" and r: "reload_foreach nested ts True w2 = Some (found', w')"
        by (auto split: option.splits)
      from poll_frame_trans[OF setScreen_frame[OF nested s] Cons.IH[OF r]] show ?thesis .
    qed
  qed
qed

lemma reload_frame: "reload depth screens w = Some w' \<Longrightarrow> poll_frame w w'"
proof (induction depth arbitrary: w w')
  case 0
  then show ?case by simp
next
  case (Suc depth)
  from Suc.prems obtain found w1 where
    l: "reload_foreach (reload depth screens) screens False w = Some (found, w1)"
    and w': "w' = reload_finish found w1"
    by (auto simp: reload.simps(2) split: option.splits)
  have "poll_frame w w1"
    using reload_foreach_frame[OF _ l] Suc.IH by blast
  from poll_frame_trans[OF this poll_frame_finish] w' show ?case by simp
qed

lemma setScreenName_changed:
  assumes "setScreenName depth screens screenName w = Some w'" "screenName \<noteq> m_screenName w"
  shows "m_screenName w' = screenName \<and> m_reloader w' = m_reloader w \<and>
         (\<exists>extra. emitted w' = emitted w @ screenNameChanged screenName # extra \<and>
                  filter is_screenNameChanged extra = [])"
proof -
  let ?w1 = "w\<lparr>m_screenName := screenName, emitted := emitted w @ [screenNameChanged screenName]\<rparr>"
  from assms have "reload depth screens ?w1 = Some w'" by (simp add: setScreenName_def)
  then have f: "poll_frame ?w1 w'" by (rule reload_frame)
  from f obtain extra where e: "emitted w' = emitted ?w1 @ extra" "filter is_screenNameChanged extra = []"
    by (rule poll_frame_emittedE)
  from e(1) have "emitted w' = emitted w @ screenNameChanged screenName # extra" by simp
  with e(2) f show ?thesis by (auto simp: poll_frame_def)
qed

lemma setScreenName_returns:
  assumes u: "\<forall>s\<in>set screens. \<forall>t\<in>set screens.
           name s = screenName \<and> name t = screenName \<longrightarrow> ptr s = ptr t"
  shows "\<exists>w'. setScreenName (Suc (Suc depth)) screens screenName w = Some w'"
proof (cases "screenName = m_screenName w")
  case True
  then show ?thesis by (simp add: setScreenName_def)
next
  case False
  let ?w1 = "w\<lparr>m_screenName := screenName, emitted := emitted w @ [screenNameChanged screenName]\<rparr>"
  have n: "m_screenName ?w1 = screenName" by simp
  have "ptr s = ptr t" if "s \<in> set screens" "t \<in> set screens" "name s = m_screenName ?w1"
    "name t = m_screenName ?w1" for s t
    using u that unfolding n by blast
  from reload_unique[of screens ?w1 depth, OF this]
  have "reload (Suc (Suc depth)) screens ?w1 \<noteq> None" by simp
  then have "\<exists>w'. reload (Suc (Suc depth)) screens ?w1 = Some w'" by (simp only: not_None_eq)
  with False show ?thesis by (simp only: setScreenName_def if_True not_False_eq_True)
qed

subsection \<open>Polls with at most one screen of the configured name\<close>

lemma reload_unique_found:
  assumes uniq: "\<And>s t. s \<in> set screens \<Longrightarrow> t \<in> set screens \<Longrightarrow> name s = m_screenName w \<Longrightarrow>
                   name t = m_screenName w \<Longrightarrow> ptr s = ptr t"
  shows "\<exists>w'. reload (Suc (Suc depth)) screens w = Some w' \<and>
           m_found w' = (\<exists>t\<in>set screens. name t = m_screenName w) \<and>
           filter (\<lambda>s. s = foundChanged True \<or> s = foundChanged False) (emitted w') =
             filter (\<lambda>s. s = foundChanged True \<or> s = foundChanged False) (emitted w)
               @ (if m_found w' \<noteq> m_found w then [foundChanged (m_found w')] else [])"
proof (cases "find (\<lambda>t. name t = m_screenName w) screens")
  case None
  then have no: "\<not> (\<exists>t\<in>set screens. name t = m_screenName w)"
    by (auto simp: find_None_iff)
  from reload_unique[OF uniq, where depth = depth] None
  have "reload (Suc (Suc depth)) screens w = Some (reload_finish False w)" by simp
  with no show ?thesis by (auto simp: reload_finish_def)
next
  case (Some t)
  then have yes: "\<exists>t\<in>set screens. name t = m_screenName w"
    by (auto simp: find_Some_iff)
  from reload_unique[OF uniq, where depth = depth] Some
  have r: "reload (Suc (Suc depth)) screens w =
      Some (if ptr (screen w) = ptr t then reload_finish True w else attach t w)" by simp
  show ?thesis
  proof (cases "ptr (screen w) = ptr t")
    case True
    with r yes show ?thesis by (auto simp: reload_finish_def)
  next
    case False
    with r yes show ?thesis
      by (auto simp: attach_def putOnScreen_def reload_finish_def)
  qed
qed

lemma reload_unique_attach:
  assumes uniq: "\<And>s t. s \<in> set screens \<Longrightarrow> t \<in> set screens \<Longrightarrow> name s = m_screenName w \<Longrightarrow>
                   name t = m_screenName w \<Longrightarrow> ptr s = ptr t"
    and t: "t \<in> set screens" "name t = m_screenName w" "ptr (screen w) \<noteq> ptr t"
  shows "\<exists>w' t'. reload (Suc (Suc depth)) screens w = Some w' \<and>
           t' \<in> set screens \<and> name t' = m_screenName w \<and> ptr t' = ptr t \<and>
           screen w' = t' \<and> windowGeometry w' = geometry t'"
proof -
  from t(1,2) obtain t' where f: "find (\<lambda>t. name t = m_screenName w) screens = Some t'"
    by (cases "find (\<lambda>t. name t = m_screenName w) screens") (auto simp: find_None_iff)
  then have t': "t' \<in> set screens" "name t' = m_screenName w"
    by (auto simp: find_Some_iff)
  from uniq[OF t'(1) t(1) t'(2) t(2)] have p: "ptr t' = ptr t" .
  from reload_unique[OF uniq, where depth = depth] f p t(3)
  have "reload (Suc (Suc depth)) screens w = Some (attach t' w)" by simp
  with t' p show ?thesis by (auto simp: attach_fields)
qed

lemma m_reloader_timeout_unique:
  assumes uniq: "\<And>s t. s \<in> set screens \<Longrightarrow> t \<in> set screens \<Longrightarrow> name s = m_screenName w \<Longrightarrow>
                   name t = m_screenName w \<Longrightarrow> ptr s = ptr t"
    and act: "active (m_reloader w)" "\<not> singleShot (m_reloader w)"
  shows "\<exists>w'. m_reloader_timeout (Suc (Suc depth)) screens w = Some w' \<and>
           m_found w' = (\<exists>t\<in>set screens. name t = m_screenName w) \<and>
           m_screenName w' = m_screenName w \<and> m_reloader w' = m_reloader w"
proof -
  from reload_unique_found[OF uniq, where depth = depth]
  obtain w' where r: "reload (Suc (Suc depth)) screens w = Some w'"
    and f: "m_found w' = (\<exists>t\<in>set screens. name t = m_screenName w)"
    by blast
  from reload_frame[OF r] have "m_screenName w' = m_screenName w" "m_reloader w' = m_reloader w"
    by (simp_all add: poll_frame_def)
  with r f act show ?thesis by (simp add: m_reloader_timeout_def)
qed

lemma polls_unique_found:
  assumes "\<And>screens s t. screens \<in> set run \<Longrightarrow> s \<in> set screens \<Longrightarrow> t \<in> set screens \<Longrightarrow>
             name s = m_screenName w \<Longrightarrow> name t = m_screenName w \<Longrightarrow> ptr s = ptr t"
    and "active (m_reloader w)" "\<not> singleShot (m_reloader w)" and "run \<noteq> []"
  shows "\<exists>w'. polls (Suc (Suc depth)) run w = Some w' \<and>
           m_found w' = (\<exists>t\<in>set (last run). name t = m_screenName w)"
  using assms
proof (induction run arbitrary: w)
  case Nil
  then show ?case by simp
next
  case (Cons screens later)
  have "ptr s = ptr t" if "s \<in> set screens" "t \<in> set screens" "name s = m_screenName w"
    "name t = m_screenName w" for s t
    by (rule Cons.prems(1)[of screens s t]) (use that in simp_all)
  from m_reloader_timeout_unique[OF this Cons.prems(2,3), where depth = depth]
  obtain w1 where 1: "m_reloader_timeout (Suc (Suc depth)) screens w = Some w1"
    and f: "m_found w1 = (\<exists>t\<in>set screens. name t = m_screenName w)"
    and k: "m_screenName w1 = m_screenName w" "m_reloader w1 = m_reloader w"
    by blast
  show ?case
  proof (cases "later = []")
    case True
    with 1 f show ?thesis by simp
  next
    case False
    have u: "ptr s = ptr t" if "screens \<in> set later" "s \<in> set screens" "t \<in> set screens"
      "name s = m_screenName w1" "name t = m_screenName w1" for screens s t
      by (rule Cons.prems(1)[of screens s t]) (use that k(1) in simp_all)
    have a: "active (m_reloader w1)" "\<not> singleShot (m_reloader w1)"
      using Cons.prems(2,3) k(2) by simp_all
    have "\<exists>w'. polls (Suc (Suc depth)) later w1 = Some w' \<and>
           m_found w' = (\<exists>t\<in>set (last later). name t = m_screenName w1)"
    proof (rule Cons.IH)
      fix screens s t
      assume "screens \<in> set later" "s \<in> set screens" "t \<in> set screens"
        "name s = m_screenName w1" "name t = m_screenName w1"
      then show "ptr s = ptr t" by (rule u)
    qed (rule a(1), rule a(2), rule False)
    then obtain w' where "polls (Suc (Suc depth)) later w1 = Some w'"
      "m_found w' = (\<exists>t\<in>set (last later). name t = m_screenName w1)"
      by blast
    with 1 False k(1) show ?thesis by simp
  qed
qed

subsection \<open>The bound on nesting\<close>

lemma reload_foreach_mono:
  assumes "\<And>v v'. nested v = Some v' \<Longrightarrow> nested' v = Some v'"
  shows "reload_foreach nested ts found w = Some r \<Longrightarrow> reload_foreach nested' ts found w = Some r"
proof (induction ts arbitrary: found w)
  case Nil
  then show ?case by simp
next
  case (Cons t ts)
  show ?case
  proof (cases "name t = m_screenName w \<and> ptr (screen w) \<noteq> ptr t")
    case False
    with Cons show ?thesis by (auto split: if_splits)
  next
    case True
    with Cons.prems obtain w2 where
      s: "setScreen nested t w = Some w2" and r: "reload_foreach nested ts True w2 = Some r"
      by (auto split: option.splits)
    from s obtain w3 where
      n: "nested (w\<lparr>screen := t, emitted := emitted w @ [screenChanged (ptr t)]\<rparr>) = Some w3"
      and w2: "w2 = putOnScreen w3"
      by (auto simp: setScreen_def onScreenChanged_def split: option.splits)
    from assms[OF n] w2 have "setScreen nested' t w = Some w2"
      by (simp add: setScreen_def onScreenChanged_def)
    with Cons.IH[OF r] True show ?thesis by simp
  qed
qed

lemma reload_mono: "reload depth screens w = Some w' \<Longrightarrow> reload (Suc depth) screens w = Some w'"
proof (induction depth arbitrary: w w')
  case 0
  then show ?case by simp
next
  case (Suc depth)
  from Suc.prems obtain found w1 where
    l: "reload_foreach (reload depth screens) screens False w = Some (found, w1)"
    and w': "w' = reload_finish found w1"
    by (auto simp: reload.simps(2) split: option.splits)
  have "reload_foreach (reload (Suc depth) screens) screens False w = Some (found, w1)"
    using reload_foreach_mono[OF _ l] Suc.IH by blast
  with w' show ?case by (simp add: reload.simps(2)[of "Suc depth"])
qed

lemma reload_returns_iff:
  "(\<exists>w'. reload (Suc (Suc depth)) screens w = Some w') \<longleftrightarrow>
   (\<forall>s\<in>set screens. \<forall>t\<in>set screens.
      name s = m_screenName w \<and> name t = m_screenName w \<longrightarrow> ptr s = ptr t)"
proof
  assume "\<exists>w'. reload (Suc (Suc depth)) screens w = Some w'"
  then obtain w' where r: "reload (Suc (Suc depth)) screens w = Some w'" by blast
  show "\<forall>s\<in>set screens. \<forall>t\<in>set screens.
      name s = m_screenName w \<and> name t = m_screenName w \<longrightarrow> ptr s = ptr t"
  proof (intro ballI impI)
    fix s t assume st: "s \<in> set screens" "t \<in> set screens"
      "name s = m_screenName w \<and> name t = m_screenName w"
    show "ptr s = ptr t"
    proof (rule ccontr)
      assume "ptr s \<noteq> ptr t"
      with st have "reload (Suc (Suc depth)) screens w = None"
        using reload_diverges[of s screens t w "Suc (Suc depth)"] by blast
      with r show False by simp
    qed
  qed
next
  assume u: "\<forall>s\<in>set screens. \<forall>t\<in>set screens.
      name s = m_screenName w \<and> name t = m_screenName w \<longrightarrow> ptr s = ptr t"
  have "ptr s = ptr t" if "s \<in> set screens" "t \<in> set screens" "name s = m_screenName w"
    "name t = m_screenName w" for s t
    using u that by blast
  from reload_unique_found[OF this, where depth = depth]
  show "\<exists>w'. reload (Suc (Suc depth)) screens w = Some w'" by blast
qed

subsection \<open>Two monitors of the same model\<close>

text \<open>
  The window \<open>searching\<close> is what the constructor and \<open>setScreenName\<close> produce while only
  the panel is present.
\<close>

lemma OutputWindow_new_timer:
  assumes "OutputWindow_new depth screens initialScreen initialGeometry = Some w"
  shows "m_reloader w = \<lparr>interval = 1000, singleShot = False, active = True\<rparr>"
proof -
  let ?w0 = "putOnScreen \<lparr>m_screenName = [], m_found = False,
                m_reloader = \<lparr>interval = 0, singleShot = False, active = False\<rparr>,
                screen = initialScreen, windowGeometry = initialGeometry, emitted = []\<rparr>"
  from assms obtain w1 where r: "reload depth screens ?w0 = Some w1"
    and w: "w = w1\<lparr>m_reloader := (m_reloader w1)\<lparr>interval := 1000, active := True\<rparr>\<rparr>"
    by (auto simp: OutputWindow_new_def split: option.splits)
  from reload_frame[OF r] have "m_reloader w1 = m_reloader ?w0" by (simp add: poll_frame_def)
  then show ?thesis by (simp add: w putOnScreen_def)
qed

lemma searching_reached:
  "\<exists>w. OutputWindow_new 1 [panel] panel (0, 0, 640, 480) = Some w \<and>
       setScreenName 1 [panel] ''DELL U2412M'' w = Some searching"
proof -
  have r: "reload 1 = reload (Suc 0)" by simp
  show ?thesis
    unfolding OutputWindow_new_def setScreenName_def r reload.simps
    by (simp add: putOnScreen_def reload_finish_def panel_def searching_def)
qed

text \<open>
  C2. The timer is started by the constructor with an interval of 1000 and every expiry calls
  \<open>reload\<close>. While only the panel is present a poll returns and leaves \<open>found()\<close> false. With
  the panel and two monitors whose \<open>name()\<close> is the configured screen name, the next poll
  does not return, whatever depth of nesting is allowed: \<open>setScreen\<close> to the first monitor
  emits \<open>screenChanged\<close>, \<open>onScreenChanged\<close> calls \<open>reload\<close>, which finds the second monitor
  not current and calls \<open>setScreen\<close>, and so on. \<open>found()\<close> never becomes true, although a
  screen with the configured name is present.
\<close>

theorem poll_with_twin_monitors_never_returns:
  "polls 1 ([panel] # []) searching = Some searching \<and>
   (\<forall>depth. polls depth ([panel] # [panel, monitor_left, monitor_right] # []) searching = None)"
proof
  have one: "reload 1 = reload (Suc 0)" by simp
  show first: "polls 1 ([panel] # []) searching = Some searching"
    unfolding polls.simps m_reloader_timeout_def one reload.simps
    by (simp add: searching_def panel_def reload_finish_def)
  show "\<forall>depth. polls depth ([panel] # [panel, monitor_left, monitor_right] # []) searching = None"
  proof
    fix depth
    have div: "reload depth [panel, monitor_left, monitor_right] w = None"
      if "m_screenName w = ''DELL U2412M''" for w
      by (rule reload_diverges[of monitor_left _ monitor_right])
         (simp_all add: monitor_left_def monitor_right_def that)
    have "m_reloader_timeout depth [panel] searching = None \<or>
          (\<exists>w. m_reloader_timeout depth [panel] searching = Some w \<and> m_screenName w = ''DELL U2412M'' \<and>
               active (m_reloader w) \<and> \<not> singleShot (m_reloader w))"
    proof (cases "m_reloader_timeout depth [panel] searching")
      case None
      then show ?thesis by simp
    next
      case (Some w)
      then have "reload depth [panel] searching = Some w"
        by (simp add: m_reloader_timeout_def searching_def)
      from reload_frame[OF this] Some show ?thesis
        by (simp add: poll_frame_def searching_def)
    qed
    moreover have "m_reloader_timeout depth [panel, monitor_left, monitor_right] w = None"
      if "m_screenName w = ''DELL U2412M''" "active (m_reloader w)" "\<not> singleShot (m_reloader w)" for w
      using that div[of w] by (simp add: m_reloader_timeout_def)
    ultimately show "polls depth ([panel] # [panel, monitor_left, monitor_right] # []) searching = None"
      by auto
  qed
qed

text \<open>
  C8. The same defect seen from the window: a \<open>reload\<close> that finds the left monitor, to which
  the window is not attached, while the right monitor has the same name, never returns, so
  the window never rests on a screen with the configured name with that screen's geometry;
  this is so whether or not the window's present screen, the panel, is among the available
  screens. With one such monitor the same call attaches the window and copies the geometry.
\<close>

theorem attach_with_twin_monitors_never_returns:
  "(\<forall>depth. reload depth [monitor_left, monitor_right] searching = None) \<and>
   (\<forall>depth. reload depth [panel, monitor_left, monitor_right] searching = None) \<and>
   reload 2 [panel, monitor_left] searching
     = Some (searching\<lparr>m_found := True, screen := monitor_left,
               windowGeometry := geometry monitor_left,
               emitted := emitted searching @ [screenChanged (ptr monitor_left), foundChanged True]\<rparr>)"
proof (intro conjI)
  show "\<forall>depth. reload depth [monitor_left, monitor_right] searching = None"
  proof
    fix depth
    show "reload depth [monitor_left, monitor_right] searching = None"
      by (rule reload_diverges[of monitor_left _ monitor_right])
         (simp_all add: monitor_left_def monitor_right_def searching_def)
  qed
  show "\<forall>depth. reload depth [panel, monitor_left, monitor_right] searching = None"
  proof
    fix depth
    show "reload depth [panel, monitor_left, monitor_right] searching = None"
      by (rule reload_diverges[of monitor_left _ monitor_right])
         (simp_all add: monitor_left_def monitor_right_def searching_def)
  qed
  have "reload (Suc (Suc 0)) [panel, monitor_left] searching =
     Some (case find (\<lambda>t. name t = m_screenName searching) [panel, monitor_left] of
        None \<Rightarrow> reload_finish False searching
      | Some t \<Rightarrow> if ptr (screen searching) = ptr t then reload_finish True searching
                  else attach t searching)"
    by (rule reload_unique) (auto simp: panel_def monitor_left_def searching_def)
  then show "reload 2 [panel, monitor_left] searching
     = Some (searching\<lparr>m_found := True, screen := monitor_left,
               windowGeometry := geometry monitor_left,
               emitted := emitted searching @ [screenChanged (ptr monitor_left), foundChanged True]\<rparr>)"
    by (simp add: numeral_2_eq_2 panel_def monitor_left_def searching_def attach_def
        putOnScreen_def reload_finish_def)
qed

text \<open>
  C10. \<open>setScreenName\<close> with the configured name returns the window as it was, whatever the
  bound on nested polls, even 0: no signal, no poll. With another name it is the poll run on
  the window in which only the name is changed and \<open>screenNameChanged\<close> is appended once; if
  that poll returns, the name is the new one, the timer is as before, and the signals are the
  old ones, then \<open>screenNameChanged\<close>, then signals of the poll, none of which is
  \<open>screenNameChanged\<close>. The poll returns when at most one screen has the new name.
\<close>

theorem setScreenName_frame:
  "setScreenName depth screens (m_screenName w) w = Some w \<and>
   (screenName \<noteq> m_screenName w \<longrightarrow>
      setScreenName depth screens screenName w =
        reload depth screens
          (w\<lparr>m_screenName := screenName, emitted := emitted w @ [screenNameChanged screenName]\<rparr>) \<and>
      (\<forall>w'. setScreenName depth screens screenName w = Some w' \<longrightarrow>
         m_screenName w' = screenName \<and> m_reloader w' = m_reloader w \<and>
         (\<exists>extra. emitted w' = emitted w @ screenNameChanged screenName # extra \<and>
                  filter is_screenNameChanged extra = [])) \<and>
      ((\<forall>s\<in>set screens. \<forall>t\<in>set screens.
           name s = screenName \<and> name t = screenName \<longrightarrow> ptr s = ptr t) \<longrightarrow>
         (\<exists>w'. setScreenName (Suc (Suc depth)) screens screenName w = Some w')))"
proof -
  have 1: "setScreenName depth screens (m_screenName w) w = Some w"
    by (simp add: setScreenName_def)
  have 2: "setScreenName depth screens screenName w =
        reload depth screens
          (w\<lparr>m_screenName := screenName, emitted := emitted w @ [screenNameChanged screenName]\<rparr>)"
    if "screenName \<noteq> m_screenName w"
    using that by (simp add: setScreenName_def)
  from 1 2 setScreenName_changed[of depth screens screenName w]
    setScreenName_returns[of screens screenName depth w]
  show ?thesis by blast
qed

theorem setScreenName_frame_witness:
  "setScreenName 0 [panel, monitor_left] ''DELL U2412M'' searching = Some searching \<and>
   (\<exists>w'. setScreenName 2 [panel, monitor_left] ''Color LCD'' searching = Some w' \<and>
      m_screenName w' = ''Color LCD'' \<and>
      (\<exists>extra. emitted w' = emitted searching @ screenNameChanged ''Color LCD'' # extra \<and>
               filter is_screenNameChanged extra = []))"
proof -
  note inst = setScreenName_frame[of 0 "[panel, monitor_left]" searching "''Color LCD''"]
  have same: "m_screenName searching = ''DELL U2412M''" by (simp add: searching_def)
  have ne: "''Color LCD'' \<noteq> m_screenName searching" by (simp add: searching_def)
  have uniq: "\<forall>s\<in>set [panel, monitor_left]. \<forall>t\<in>set [panel, monitor_left].
           name s = ''Color LCD'' \<and> name t = ''Color LCD'' \<longrightarrow> ptr s = ptr t"
    by (simp add: panel_def monitor_left_def)
  from inst ne uniq obtain w' where
    r: "setScreenName (Suc (Suc 0)) [panel, monitor_left] ''Color LCD'' searching = Some w'"
    by blast
  from setScreenName_frame[of "Suc (Suc 0)" "[panel, monitor_left]" searching "''Color LCD''"] ne r
  have "m_screenName w' = ''Color LCD'' \<and>
      (\<exists>extra. emitted w' = emitted searching @ screenNameChanged ''Color LCD'' # extra \<and>
               filter is_screenNameChanged extra = [])"
    by blast
  with r inst same show ?thesis by (auto simp: numeral_2_eq_2)
qed


section \<open>Properties of the preview adapter\<close>

subsection \<open>The chain registry\<close>

lemma addChain_chains: "set (m_chains (addChain c m)) = insert c (set (m_chains m))"
  by (auto simp: addChain_def)

lemma removeChain_chains: "set (m_chains (removeChain c m)) = set (m_chains m) - {c}"
  by (auto simp: removeChain_def)

lemma removeChain_textures: "m_textures (removeChain c m) c = Map.empty"
  by (simp add: removeChain_def)

lemma models_on_model: "models (on_model p f h) q = (if q = p then f (models h p) else models h q)"
  by (simp add: on_model_def)

lemma next_chain_on_model: "next_chain (on_model p f h) = next_chain h"
  by (simp add: on_model_def)

lemma allocated_on_model: "allocated (on_model p f h) c = allocated h c"
  by (simp add: allocated_def next_chain_on_model split: option.splits)

lemma allocated_mono: "allocated h c \<Longrightarrow> next_chain h \<le> next_chain h' \<Longrightarrow> allocated h' c"
  by (auto simp: allocated_def split: option.splits)

lemma new_Chain_fresh:
  assumes "allocated h c"
  shows "fst (new_Chain sz h) \<noteq> c"
  using assms by (auto simp: new_Chain_def allocated_def)

lemma new_Chain_allocated: "allocated (snd (new_Chain sz h)) (fst (new_Chain sz h))"
  by (simp add: new_Chain_def allocated_def)

lemma new_Chain_models: "models (snd (new_Chain sz h)) = models h"
  by (simp add: new_Chain_def)

lemma new_Chain_next: "next_chain (snd (new_Chain sz h)) = Suc (next_chain h)"
  by (simp add: new_Chain_def)

subsection \<open>The constructor\<close>

lemma new_adapter:
  assumes "\<forall>p. \<forall>c\<in>set (m_chains (models h p)). allocated h c"
  shows "m_hasPreview (fst (QQuickPreviewAdapter_new True h)) \<and>
         m_model (fst (QQuickPreviewAdapter_new True h)) = None \<and>
         registered_exactly (fst (QQuickPreviewAdapter_new True h)) (snd (QQuickPreviewAdapter_new True h)) \<and>
         chains_allocated (fst (QQuickPreviewAdapter_new True h)) (snd (QQuickPreviewAdapter_new True h))"
proof -
  let ?c = "Some \<lparr>chain_ptr = next_chain h, chain_size = (300, 300)\<rparr>"
  let ?h = "h\<lparr>next_chain := Suc (next_chain h)\<rparr>"
  have new: "QQuickPreviewAdapter_new True h =
     (\<lparr>m_model = None, m_hasPreview = True, m_previewSize = (300, 300),
       m_previewWindow = None, m_previewChain = ?c, m_lastPreviewRender = Map.empty, trace = []\<rparr>, ?h)"
    by (simp add: QQuickPreviewAdapter_new_def new_Chain_def)
  have fresh: "?c \<notin> set (m_chains (models h p))" for p
  proof
    assume "?c \<in> set (m_chains (models h p))"
    with assms have "allocated h ?c" by blast
    then show False by (simp add: allocated_def)
  qed
  have "allocated ?h c" if "c \<in> set (m_chains (models h p))" for c p
  proof -
    from assms that have "allocated h c" by blast
    then show ?thesis by (rule allocated_mono) simp
  qed
  then show ?thesis
    using fresh by (simp add: new registered_exactly_def chains_allocated_def allocated_def)
qed

subsection \<open>\<open>setModel\<close>\<close>

lemma setModel_same: "setModel (m_model a) (a, h) = (a, h)"
  by (simp add: setModel_def)

lemma setModel_effect:
  assumes "m_hasPreview a" "model \<noteq> m_model a"
  shows "setModel model (a, h) =
     (a\<lparr>m_model := model,
        trace := trace a
          @ (case m_model a of None \<Rightarrow> [] | Some p \<Rightarrow> [Called_removeChain p (m_previewChain a)])
          @ (case model of None \<Rightarrow> [] | Some q \<Rightarrow> [Called_addChain q (m_previewChain a)])
          @ [Emitted (modelChanged model)]\<rparr>,
      (case model of None \<Rightarrow> id | Some q \<Rightarrow> on_model q (addChain (m_previewChain a)))
        ((case m_model a of None \<Rightarrow> id | Some p \<Rightarrow> on_model p (removeChain (m_previewChain a))) h))"
  using assms by (cases "m_model a"; cases model) (simp_all add: setModel_def)

lemma setModel_invariant:
  assumes hp: "m_hasPreview a" and ne: "model \<noteq> m_model a"
    and reg: "registered_exactly a h" and al: "chains_allocated a h"
  shows "registered_exactly (fst (setModel model (a, h))) (snd (setModel model (a, h))) \<and>
         chains_allocated (fst (setModel model (a, h))) (snd (setModel model (a, h)))"
proof -
  note eff = setModel_effect[OF hp ne, of h]
  have al': "allocated h (m_previewChain a)" "\<And>p c. c \<in> set (m_chains (models h p)) \<Longrightarrow> allocated h c"
    using al by (auto simp: chains_allocated_def)
  have reg': "\<And>p. (m_previewChain a \<in> set (m_chains (models h p))) = (m_model a = Some p)"
    using reg by (simp add: registered_exactly_def)
  show ?thesis
  proof (cases "m_model a"; cases model)
    fix p q assume "m_model a = Some p" "model = Some q"
    with ne have pq: "p \<noteq> q" by auto
    show ?thesis
      unfolding eff using \<open>m_model a = Some p\<close> \<open>model = Some q\<close> pq reg' al'
      by (auto simp: registered_exactly_def chains_allocated_def models_on_model
          addChain_chains removeChain_chains allocated_on_model)
  next
    fix p assume "m_model a = Some p" "model = None"
    then show ?thesis
      unfolding eff using reg' al'
      by (auto simp: registered_exactly_def chains_allocated_def models_on_model
          addChain_chains removeChain_chains allocated_on_model)
  next
    fix q assume "m_model a = None" "model = Some q"
    then show ?thesis
      unfolding eff using reg' al'
      by (auto simp: registered_exactly_def chains_allocated_def models_on_model
          addChain_chains removeChain_chains allocated_on_model)
  next
    assume "m_model a = None" "model = None"
    with ne show ?thesis by simp
  qed
qed

subsection \<open>\<open>setPreviewSize\<close>\<close>

lemma setPreviewSize_same:
  assumes "debug \<longrightarrow> m_hasPreview a"
  shows "setPreviewSize debug (m_previewSize a) (a, h) = Inr (a, h)"
  using assms by (auto simp: setPreviewSize_def)

lemma setPreviewSize_effect:
  assumes "debug \<longrightarrow> m_hasPreview a" "sz \<noteq> m_previewSize a"
  shows "setPreviewSize debug sz (a, h) =
     Inr (a\<lparr>m_previewSize := sz,
            m_previewChain := fst (new_Chain sz h),
            trace := trace a @ [Locked]
              @ (case m_model a of None \<Rightarrow> []
                 | Some p \<Rightarrow> [Called_removeChain p (m_previewChain a),
                              Called_addChain p (fst (new_Chain sz h))])
              @ [Unlocked, Emitted (previewSizeChanged sz)]\<rparr>,
          (case m_model a of None \<Rightarrow> id
           | Some p \<Rightarrow> (\<lambda>h1. on_model p (addChain (fst (new_Chain sz h)))
                                (on_model p (removeChain (m_previewChain a)) h1)))
            (snd (new_Chain sz h)))"
  using assms by (cases "m_model a") (auto simp: setPreviewSize_def new_Chain_def)

lemma setPreviewSize_invariant:
  assumes hp: "m_hasPreview a" and ne: "sz \<noteq> m_previewSize a"
    and reg: "registered_exactly a h" and al: "chains_allocated a h"
    and run: "setPreviewSize debug sz (a, h) = Inr (a', h')"
  shows "registered_exactly a' h' \<and> chains_allocated a' h' \<and> m_model a' = m_model a"
proof -
  let ?new = "fst (new_Chain sz h)" and ?h1 = "snd (new_Chain sz h)"
  from hp have hp': "debug \<longrightarrow> m_hasPreview a" by simp
  note eff = setPreviewSize_effect[OF hp' ne, of h]
  have al': "allocated h (m_previewChain a)" "\<And>p c. c \<in> set (m_chains (models h p)) \<Longrightarrow> allocated h c"
    using al by (auto simp: chains_allocated_def)
  have reg': "\<And>p. (m_previewChain a \<in> set (m_chains (models h p))) = (m_model a = Some p)"
    using reg by (simp add: registered_exactly_def)
  have fresh: "?new \<notin> set (m_chains (models h p))" for p
    using new_Chain_fresh[of h _ sz] al'(2)[of ?new p] by blast
  have old: "?new \<noteq> m_previewChain a"
    using new_Chain_fresh[OF al'(1)] .
  have al1: "allocated ?h1 c" if "allocated h c" for c
    using that by (rule allocated_mono) (simp add: new_Chain_next)
  have new1: "allocated ?h1 ?new" by (rule new_Chain_allocated)
  show ?thesis
  proof (cases "m_model a")
    case None
    with run eff have a': "a' = a\<lparr>m_previewSize := sz, m_previewChain := ?new,
           trace := trace a @ [Locked] @ [] @ [Unlocked, Emitted (previewSizeChanged sz)]\<rparr>"
      and h': "h' = ?h1" by simp_all
    show ?thesis
      unfolding a' h' using None fresh new1 al1 al'(2)
      by (auto simp: registered_exactly_def chains_allocated_def new_Chain_models)
  next
    case (Some p)
    with run eff have a': "a' = a\<lparr>m_previewSize := sz, m_previewChain := ?new,
           trace := trace a @ [Locked] @ [Called_removeChain p (m_previewChain a),
                              Called_addChain p ?new] @ [Unlocked, Emitted (previewSizeChanged sz)]\<rparr>"
      and h': "h' = on_model p (addChain ?new) (on_model p (removeChain (m_previewChain a)) ?h1)"
      by simp_all
    show ?thesis
      unfolding a' h' using Some fresh new1 al1 al'(2)
      by (auto simp: registered_exactly_def chains_allocated_def new_Chain_models models_on_model
          addChain_chains removeChain_chains allocated_on_model)
  qed
qed

subsection \<open>The destructor\<close>

lemma delete_unregisters:
  assumes "m_hasPreview a" "registered_exactly a h"
  shows "m_previewChain a \<notin> set (m_chains (models (QQuickPreviewAdapter_delete (a, h)) p))"
  using assms
  by (cases "m_model a")
     (auto simp: QQuickPreviewAdapter_delete_def registered_exactly_def models_on_model
        removeChain_chains)

subsection \<open>Reading the last render\<close>

lemma onBeforeSynchronizing_effect:
  assumes "debug \<longrightarrow> m_hasPreview a" "m_model a = Some p"
  shows "onBeforeSynchronizing debug render (a, h) =
     Inr (a\<lparr>m_lastPreviewRender :=
              render (createCopyForRendering (m_previewChain a) (models h p)) (m_previewChain a)\<rparr>, h)"
  using assms by (auto simp: onBeforeSynchronizing_def)

lemma previewTexture_value:
  assumes "debug \<longrightarrow> m_hasPreview a"
  shows "previewTexture debug videoNodeId a =
     Inr (case m_lastPreviewRender a videoNodeId of None \<Rightarrow> 0 | Some t \<Rightarrow> t, a)"
  using assms by (auto simp: previewTexture_def QMap_value_def)

lemma setModel_keeps_render: "m_lastPreviewRender (fst (setModel model (a, h))) = m_lastPreviewRender a"
  by (cases "m_model a"; cases model; cases "m_hasPreview a") (simp_all add: setModel_def)

lemma setPreviewSize_keeps_render:
  assumes "setPreviewSize debug sz (a, h) = Inr (a', h')"
  shows "m_lastPreviewRender a' = m_lastPreviewRender a"
  using assms
  by (cases "m_model a") (auto simp: setPreviewSize_def new_Chain_def split: if_splits)

lemma setPreviewWindow_keeps_render:
  assumes "setPreviewWindow debug window (a, h) = Inr (a', h')"
  shows "m_lastPreviewRender a' = m_lastPreviewRender a"
  using assms by (auto simp: setPreviewWindow_def split: if_splits)

text \<open>
  C7. \<open>previewTexture\<close> returns the texture stored under the identifier in
  \<open>m_lastPreviewRender\<close> and returns the adapter as it was. \<open>m_lastPreviewRender\<close> is what the
  last \<open>onBeforeSynchronizing\<close> got from \<open>render\<close>: that call stores the mapping, and
  \<open>setModel\<close>, \<open>setPreviewSize\<close> and \<open>setPreviewWindow\<close> leave it as it is. Where assertions
  are compiled in, the adapter has a preview, as \<open>previewTexture\<close> asserts.
\<close>

theorem previewTexture_reads_last_render:
  assumes "debug \<longrightarrow> m_hasPreview a"
  shows "(\<forall>t. m_lastPreviewRender a videoNodeId = Some t \<longrightarrow>
            previewTexture debug videoNodeId a = Inr (t, a)) \<and>
         (\<forall>p a' h' t. m_model a = Some p \<longrightarrow> onBeforeSynchronizing debug render (a, h) = Inr (a', h') \<longrightarrow>
            m_lastPreviewRender a' =
              render (createCopyForRendering (m_previewChain a) (models h p)) (m_previewChain a) \<and>
            (m_lastPreviewRender a' videoNodeId = Some t \<longrightarrow>
               previewTexture debug videoNodeId a' = Inr (t, a'))) \<and>
         m_lastPreviewRender (fst (setModel model (a, h))) = m_lastPreviewRender a \<and>
         (\<forall>sz a' h'. setPreviewSize debug sz (a, h) = Inr (a', h') \<longrightarrow>
            m_lastPreviewRender a' = m_lastPreviewRender a) \<and>
         (\<forall>window a' h'. setPreviewWindow debug window (a, h) = Inr (a', h') \<longrightarrow>
            m_lastPreviewRender a' = m_lastPreviewRender a)"
proof (intro conjI allI impI)
  fix t assume "m_lastPreviewRender a videoNodeId = Some t"
  then show "previewTexture debug videoNodeId a = Inr (t, a)"
    using assms by (simp add: previewTexture_value)
next
  fix p a' h' t
  assume p: "m_model a = Some p" and run: "onBeforeSynchronizing debug render (a, h) = Inr (a', h')"
  have a': "a' = a\<lparr>m_lastPreviewRender :=
              render (createCopyForRendering (m_previewChain a) (models h p)) (m_previewChain a)\<rparr>"
    using run unfolding onBeforeSynchronizing_effect[OF assms p, of render h]
    by (metis Inr_inject prod.inject)
  then show "m_lastPreviewRender a' =
      render (createCopyForRendering (m_previewChain a) (models h p)) (m_previewChain a)"
    by simp
  assume "m_lastPreviewRender a' videoNodeId = Some t"
  moreover have "debug \<longrightarrow> m_hasPreview a'" using a' assms by simp
  ultimately show "previewTexture debug videoNodeId a' = Inr (t, a')"
    by (simp add: previewTexture_value)
next
  show "m_lastPreviewRender (fst (setModel model (a, h))) = m_lastPreviewRender a"
    by (rule setModel_keeps_render)
next
  fix sz a' h' assume "setPreviewSize debug sz (a, h) = Inr (a', h')"
  then show "m_lastPreviewRender a' = m_lastPreviewRender a" by (rule setPreviewSize_keeps_render)
next
  fix window a' h' assume "setPreviewWindow debug window (a, h) = Inr (a', h')"
  then show "m_lastPreviewRender a' = m_lastPreviewRender a" by (rule setPreviewWindow_keeps_render)
qed

lemma sample_after_render:
  "onBeforeSynchronizing debug sample_render (sample_adapter, sample_heap) =
     Inr (sample_adapter\<lparr>m_lastPreviewRender := [7 \<mapsto> 42]\<rparr>, sample_heap)"
  by (simp add: onBeforeSynchronizing_def sample_adapter_def sample_heap_def sample_render_def
      createCopyForRendering_def)

theorem previewTexture_reads_last_render_witness:
  "previewTexture True 7 (sample_adapter\<lparr>m_lastPreviewRender := [7 \<mapsto> 42]\<rparr>)
     = Inr (42, sample_adapter\<lparr>m_lastPreviewRender := [7 \<mapsto> 42]\<rparr>)"
  using previewTexture_reads_last_render[of True "sample_adapter\<lparr>m_lastPreviewRender := [7 \<mapsto> 42]\<rparr>" 7]
  by (simp add: sample_adapter_def)

text \<open>
  C9. For an identifier that the last render's mapping does not contain, \<open>previewTexture\<close>
  returns 0 and the adapter as it was; so does an adapter on which nothing was rendered yet,
  whose mapping is empty, with or without a preview when assertions are compiled out, and
  with a preview, as \<open>previewTexture\<close> asserts, when they are compiled in.
\<close>

theorem previewTexture_unknown_node:
  assumes "debug \<longrightarrow> m_hasPreview a"
  shows "(m_lastPreviewRender a videoNodeId = None \<longrightarrow>
            previewTexture debug videoNodeId a = Inr (0, a)) \<and>
         previewTexture debug videoNodeId (fst (QQuickPreviewAdapter_new True h))
           = Inr (0, fst (QQuickPreviewAdapter_new True h)) \<and>
         previewTexture False videoNodeId (fst (QQuickPreviewAdapter_new False h))
           = Inr (0, fst (QQuickPreviewAdapter_new False h))"
proof -
  have "m_hasPreview (fst (QQuickPreviewAdapter_new True h))"
    "m_lastPreviewRender (fst (QQuickPreviewAdapter_new True h)) videoNodeId = None"
    "m_lastPreviewRender (fst (QQuickPreviewAdapter_new False h)) videoNodeId = None"
    by (simp_all add: QQuickPreviewAdapter_new_def new_Chain_def)
  then show ?thesis
    using assms by (simp add: previewTexture_value)
qed

theorem previewTexture_unknown_node_witness:
  "previewTexture True 8 (sample_adapter\<lparr>m_lastPreviewRender := [7 \<mapsto> 42]\<rparr>)
     = Inr (0, sample_adapter\<lparr>m_lastPreviewRender := [7 \<mapsto> 42]\<rparr>)"
  using previewTexture_unknown_node[of True "sample_adapter\<lparr>m_lastPreviewRender := [7 \<mapsto> 42]\<rparr>" 8]
  by (simp add: sample_adapter_def)

text \<open>
  C3. With the size the adapter has, \<open>setPreviewSize\<close> changes nothing and emits nothing.
  With another size it constructs a new chain of that size, at a new address, and stores it
  in place of the old one, whose address and size stay as they were; under a model it calls
  \<open>removeChain\<close> with the old chain and \<open>addChain\<close> with the new one, both between taking
  and releasing \<open>m_previewLock\<close>, so that the model's registry loses the old chain, gains the
  new one, and holds no cached texture for the old chain any more; \<open>previewSizeChanged\<close> is
  emitted after the lock is released. Models other than the adapter's are not touched. The
  adapter's own \<open>m_lastPreviewRender\<close> is left as it is until the next render. Where
  assertions are compiled in, the adapter has a preview, as \<open>setPreviewSize\<close> asserts; its
  chain comes from an earlier \<open>new Chain\<close>.
\<close>

theorem setPreviewSize_replaces_chain:
  assumes hp: "debug \<longrightarrow> m_hasPreview a" and al: "allocated h (m_previewChain a)"
  shows "setPreviewSize debug (m_previewSize a) (a, h) = Inr (a, h) \<and>
     (sz \<noteq> m_previewSize a \<longrightarrow>
       (\<exists>a' h'. setPreviewSize debug sz (a, h) = Inr (a', h') \<and>
          m_previewSize a' = sz \<and>
          m_previewChain a' = Some \<lparr>chain_ptr = next_chain h, chain_size = sz\<rparr> \<and>
          m_previewChain a' \<noteq> m_previewChain a \<and>
          m_model a' = m_model a \<and> m_hasPreview a' = m_hasPreview a \<and>
          m_previewWindow a' = m_previewWindow a \<and>
          m_lastPreviewRender a' = m_lastPreviewRender a \<and>
          trace a' = trace a @ [Locked]
              @ (case m_model a of None \<Rightarrow> []
                 | Some p \<Rightarrow> [Called_removeChain p (m_previewChain a),
                              Called_addChain p (m_previewChain a')])
              @ [Unlocked, Emitted (previewSizeChanged sz)] \<and>
          (case m_model a of
             None \<Rightarrow> models h' = models h
           | Some p \<Rightarrow>
               set (m_chains (models h' p))
                 = insert (m_previewChain a') (set (m_chains (models h p)) - {m_previewChain a}) \<and>
               m_previewChain a \<notin> set (m_chains (models h' p)) \<and>
               m_textures (models h' p) (m_previewChain a) = Map.empty \<and>
               (\<forall>q. q \<noteq> p \<longrightarrow> models h' q = models h q))))"
proof (intro conjI impI)
  show "setPreviewSize debug (m_previewSize a) (a, h) = Inr (a, h)"
    using hp by (rule setPreviewSize_same)
next
  assume ne: "sz \<noteq> m_previewSize a"
  let ?new = "Some \<lparr>chain_ptr = next_chain h, chain_size = sz\<rparr>"
  have new: "fst (new_Chain sz h) = ?new" by (simp add: new_Chain_def)
  have old: "?new \<noteq> m_previewChain a"
    using new_Chain_fresh[OF al, of sz] by (simp add: new)
  note eff = setPreviewSize_effect[OF hp ne, of h, unfolded new]
  show "\<exists>a' h'. setPreviewSize debug sz (a, h) = Inr (a', h') \<and>
          m_previewSize a' = sz \<and>
          m_previewChain a' = ?new \<and>
          m_previewChain a' \<noteq> m_previewChain a \<and>
          m_model a' = m_model a \<and> m_hasPreview a' = m_hasPreview a \<and>
          m_previewWindow a' = m_previewWindow a \<and>
          m_lastPreviewRender a' = m_lastPreviewRender a \<and>
          trace a' = trace a @ [Locked]
              @ (case m_model a of None \<Rightarrow> []
                 | Some p \<Rightarrow> [Called_removeChain p (m_previewChain a),
                              Called_addChain p (m_previewChain a')])
              @ [Unlocked, Emitted (previewSizeChanged sz)] \<and>
          (case m_model a of
             None \<Rightarrow> models h' = models h
           | Some p \<Rightarrow>
               set (m_chains (models h' p))
                 = insert (m_previewChain a') (set (m_chains (models h p)) - {m_previewChain a}) \<and>
               m_previewChain a \<notin> set (m_chains (models h' p)) \<and>
               m_textures (models h' p) (m_previewChain a) = Map.empty \<and>
               (\<forall>q. q \<noteq> p \<longrightarrow> models h' q = models h q))"
  proof (cases "m_model a")
    case None
    show ?thesis
      unfolding eff using None hp old by (simp add: new_Chain_models)
  next
    case (Some p)
    show ?thesis
      unfolding eff using Some hp old
      by (simp add: new_Chain_models models_on_model addChain_chains removeChain_chains)
         (simp add: addChain_def removeChain_def)
  qed
qed

theorem setPreviewSize_replaces_chain_witness:
  "\<exists>a' h'. setPreviewSize True (100, 100) (sample_adapter, sample_heap) = Inr (a', h') \<and>
     m_previewSize a' = (100, 100) \<and>
     m_previewChain a' = Some \<lparr>chain_ptr = 1, chain_size = (100, 100)\<rparr> \<and>
     trace a' = [Locked,
                 Called_removeChain 3 (Some \<lparr>chain_ptr = 0, chain_size = (300, 300)\<rparr>),
                 Called_addChain 3 (Some \<lparr>chain_ptr = 1, chain_size = (100, 100)\<rparr>),
                 Unlocked, Emitted (previewSizeChanged (100, 100))] \<and>
     set (m_chains (models h' 3)) = {Some \<lparr>chain_ptr = 1, chain_size = (100, 100)\<rparr>}"
proof -
  have hp: "True \<longrightarrow> m_hasPreview sample_adapter" by (simp add: sample_adapter_def)
  have al: "allocated sample_heap (m_previewChain sample_adapter)"
    by (simp add: sample_adapter_def sample_heap_def allocated_def)
  have ne: "(100, 100) \<noteq> m_previewSize sample_adapter" by (simp add: sample_adapter_def)
  from setPreviewSize_replaces_chain[OF hp al, of "(100, 100)"] ne
  obtain a' h' where r: "setPreviewSize True (100, 100) (sample_adapter, sample_heap) = Inr (a', h')"
    "m_previewSize a' = (100, 100)"
    "m_previewChain a' = Some \<lparr>chain_ptr = next_chain sample_heap, chain_size = (100, 100)\<rparr>"
    "trace a' = trace sample_adapter @ [Locked]
              @ (case m_model sample_adapter of None \<Rightarrow> []
                 | Some p \<Rightarrow> [Called_removeChain p (m_previewChain sample_adapter),
                              Called_addChain p (m_previewChain a')])
              @ [Unlocked, Emitted (previewSizeChanged (100, 100))]"
    "(case m_model sample_adapter of
             None \<Rightarrow> models h' = models sample_heap
           | Some p \<Rightarrow>
               set (m_chains (models h' p))
                 = insert (m_previewChain a') (set (m_chains (models sample_heap p)) - {m_previewChain sample_adapter}) \<and>
               m_previewChain sample_adapter \<notin> set (m_chains (models h' p)) \<and>
               m_textures (models h' p) (m_previewChain sample_adapter) = Map.empty \<and>
               (\<forall>q. q \<noteq> p \<longrightarrow> models h' q = models sample_heap q))"
    by blast
  show ?thesis
  proof (intro exI conjI)
    show "setPreviewSize True (100, 100) (sample_adapter, sample_heap) = Inr (a', h')" by (rule r(1))
    show "m_previewSize a' = (100, 100)" by (rule r(2))
    show c: "m_previewChain a' = Some \<lparr>chain_ptr = 1, chain_size = (100, 100)\<rparr>"
      using r(3) by (simp add: sample_heap_def)
    show "trace a' = [Locked,
                 Called_removeChain 3 (Some \<lparr>chain_ptr = 0, chain_size = (300, 300)\<rparr>),
                 Called_addChain 3 (Some \<lparr>chain_ptr = 1, chain_size = (100, 100)\<rparr>),
                 Unlocked, Emitted (previewSizeChanged (100, 100))]"
      using r(4) c by (simp add: sample_adapter_def)
    show "set (m_chains (models h' 3)) = {Some \<lparr>chain_ptr = 1, chain_size = (100, 100)\<rparr>}"
      using r(5) c by (simp add: sample_adapter_def sample_heap_def)
  qed
qed

text \<open>
  C6. For an adapter with a preview, ``the preview chain is registered with the model at \<open>p\<close>
  exactly when \<open>p\<close> is \<open>m_model\<close>'' holds after construction (no model, chain registered
  nowhere), and is kept by \<open>setModel\<close> and by \<open>setPreviewSize\<close>. \<open>setModel\<close> with another model
  calls \<open>removeChain\<close> on the previous model if there was one, then \<open>addChain\<close> on the new one
  if there is one, and emits \<open>modelChanged\<close>; with the current model it returns the state it
  was given, so it emits nothing. After the destructor the chain is registered with no model.
\<close>

theorem chain_registered_with_current_model:
  assumes hp: "m_hasPreview a" and reg: "registered_exactly a h" and al: "chains_allocated a h"
  shows "setModel (m_model a) (a, h) = (a, h) \<and>
     (model \<noteq> m_model a \<longrightarrow>
        (\<exists>a' h'. setModel model (a, h) = (a', h') \<and>
           m_model a' = model \<and> m_previewChain a' = m_previewChain a \<and> m_hasPreview a' \<and>
           trace a' = trace a
             @ (case m_model a of None \<Rightarrow> [] | Some p \<Rightarrow> [Called_removeChain p (m_previewChain a)])
             @ (case model of None \<Rightarrow> [] | Some q \<Rightarrow> [Called_addChain q (m_previewChain a)])
             @ [Emitted (modelChanged model)] \<and>
           registered_exactly a' h' \<and> chains_allocated a' h')) \<and>
     (\<exists>a' h'. setPreviewSize debug sz (a, h) = Inr (a', h') \<and> m_model a' = m_model a \<and>
         m_hasPreview a' \<and> registered_exactly a' h' \<and> chains_allocated a' h') \<and>
     (\<forall>p. m_previewChain a \<notin> set (m_chains (models (QQuickPreviewAdapter_delete (a, h)) p))) \<and>
     (m_model (fst (QQuickPreviewAdapter_new True h)) = None \<and>
      m_hasPreview (fst (QQuickPreviewAdapter_new True h)) \<and>
      registered_exactly (fst (QQuickPreviewAdapter_new True h)) (snd (QQuickPreviewAdapter_new True h)) \<and>
      chains_allocated (fst (QQuickPreviewAdapter_new True h)) (snd (QQuickPreviewAdapter_new True h)))"
proof (intro conjI impI allI)
  show "setModel (m_model a) (a, h) = (a, h)" by (rule setModel_same)
next
  assume ne: "model \<noteq> m_model a"
  obtain a' h' where r: "setModel model (a, h) = (a', h')" by (cases "setModel model (a, h)")
  from setModel_invariant[OF hp ne reg al] r
  have inv: "registered_exactly a' h'" "chains_allocated a' h'" by simp_all
  from r setModel_effect[OF hp ne, of h]
  have a': "a' = a\<lparr>m_model := model,
        trace := trace a
          @ (case m_model a of None \<Rightarrow> [] | Some p \<Rightarrow> [Called_removeChain p (m_previewChain a)])
          @ (case model of None \<Rightarrow> [] | Some q \<Rightarrow> [Called_addChain q (m_previewChain a)])
          @ [Emitted (modelChanged model)]\<rparr>"
    by (metis prod.inject)
  show "\<exists>a' h'. setModel model (a, h) = (a', h') \<and>
           m_model a' = model \<and> m_previewChain a' = m_previewChain a \<and> m_hasPreview a' \<and>
           trace a' = trace a
             @ (case m_model a of None \<Rightarrow> [] | Some p \<Rightarrow> [Called_removeChain p (m_previewChain a)])
             @ (case model of None \<Rightarrow> [] | Some q \<Rightarrow> [Called_addChain q (m_previewChain a)])
             @ [Emitted (modelChanged model)] \<and>
           registered_exactly a' h' \<and> chains_allocated a' h'"
  proof (intro exI conjI)
    show "setModel model (a, h) = (a', h')" by (rule r)
  qed (use inv hp in \<open>simp_all add: a'\<close>)
next
  from hp have hp': "debug \<longrightarrow> m_hasPreview a" by simp
  show "\<exists>a' h'. setPreviewSize debug sz (a, h) = Inr (a', h') \<and> m_model a' = m_model a \<and>
         m_hasPreview a' \<and> registered_exactly a' h' \<and> chains_allocated a' h'"
  proof (cases "sz = m_previewSize a")
    case True
    with setPreviewSize_same[OF hp', of h] hp reg al show ?thesis by simp
  next
    case False
    from setPreviewSize_effect[OF hp' False, of h]
    obtain a' h' where r: "setPreviewSize debug sz (a, h) = Inr (a', h')" "m_hasPreview a'"
      using hp by simp
    from setPreviewSize_invariant[OF hp False reg al r(1)] r show ?thesis by blast
  qed
next
  fix p
  show "m_previewChain a \<notin> set (m_chains (models (QQuickPreviewAdapter_delete (a, h)) p))"
    using hp reg by (rule delete_unregisters)
next
  have "\<forall>p. \<forall>c\<in>set (m_chains (models h p)). allocated h c"
    using al by (simp add: chains_allocated_def)
  from new_adapter[OF this]
  show "m_model (fst (QQuickPreviewAdapter_new True h)) = None"
    "m_hasPreview (fst (QQuickPreviewAdapter_new True h))"
    "registered_exactly (fst (QQuickPreviewAdapter_new True h)) (snd (QQuickPreviewAdapter_new True h))"
    "chains_allocated (fst (QQuickPreviewAdapter_new True h)) (snd (QQuickPreviewAdapter_new True h))"
    by simp_all
qed

lemma sample_invariant:
  "m_hasPreview sample_adapter" "registered_exactly sample_adapter sample_heap"
  "chains_allocated sample_adapter sample_heap"
  by (simp_all add: sample_adapter_def sample_heap_def registered_exactly_def chains_allocated_def
      allocated_def)

theorem chain_registered_with_current_model_witness:
  "\<exists>a' h'. setModel (Some 5) (sample_adapter, sample_heap) = (a', h') \<and>
      m_model a' = Some 5 \<and>
      trace a' = [Called_removeChain 3 (Some \<lparr>chain_ptr = 0, chain_size = (300, 300)\<rparr>),
                  Called_addChain 5 (Some \<lparr>chain_ptr = 0, chain_size = (300, 300)\<rparr>),
                  Emitted (modelChanged (Some 5))] \<and>
      registered_exactly a' h'"
proof -
  have ne: "Some 5 \<noteq> m_model sample_adapter" by (simp add: sample_adapter_def)
  from chain_registered_with_current_model[OF sample_invariant, of "Some 5"] ne
  obtain a' h' where r: "setModel (Some 5) (sample_adapter, sample_heap) = (a', h')"
    "m_model a' = Some 5"
    "trace a' = trace sample_adapter
             @ (case m_model sample_adapter of None \<Rightarrow> []
                | Some p \<Rightarrow> [Called_removeChain p (m_previewChain sample_adapter)])
             @ (case Some 5 of None \<Rightarrow> [] | Some q \<Rightarrow> [Called_addChain q (m_previewChain sample_adapter)])
             @ [Emitted (modelChanged (Some 5))]"
    "registered_exactly a' h'"
    by blast
  show ?thesis
  proof (intro exI conjI)
    show "setModel (Some 5) (sample_adapter, sample_heap) = (a', h')" by (rule r(1))
    show "m_model a' = Some 5" by (rule r(2))
    show "trace a' = [Called_removeChain 3 (Some \<lparr>chain_ptr = 0, chain_size = (300, 300)\<rparr>),
                  Called_addChain 5 (Some \<lparr>chain_ptr = 0, chain_size = (300, 300)\<rparr>),
                  Emitted (modelChanged (Some 5))]"
      using r(3) by (simp add: sample_adapter_def)
    show "registered_exactly a' h'" by (rule r(4))
  qed
qed


section \<open>Properties of the render snapshot\<close>

subsection \<open>Objects: allocation, copying and reading\<close>

lemma read_nodes_cong:
  assumes "\<forall>q\<in>set ps. videoNodes st' q = videoNodes st q"
  shows "read_nodes st' ps = read_nodes st ps"
  using assms by (induction ps) (auto split: option.splits sum.splits)

lemma read_nodes_no_dangling:
  assumes "\<forall>q\<in>set ps. videoNodes st q \<noteq> None"
  shows "read_nodes st ps = Inr (List.map_filter (videoNodes st) ps)"
  using assms by (induction ps) (auto split: option.splits)

lemma copy_nodes_result:
  assumes "copy_nodes qs st = Inr (ps, st')" and "\<forall>q\<in>set qs. q < next_object st"
  shows "next_object st' = next_object st + length qs \<and>
         ps = [next_object st..<next_object st + length qs] \<and>
         modelObjects st' = modelObjects st \<and>
         (\<forall>q. q < next_object st \<longrightarrow> videoNodes st' q = videoNodes st q) \<and>
         read_nodes st' ps = read_nodes st qs"
  using assms
proof (induction qs arbitrary: st ps st')
  case Nil
  then show ?case by simp
next
  case (Cons q qs)
  define n where "n = next_object st"
  from Cons.prems(1) obtain v where v: "videoNodes st q = Some v"
    by (auto split: option.splits)
  define st1 where "st1 = st\<lparr>videoNodes := (videoNodes st)(n \<mapsto> v), next_object := Suc n\<rparr>"
  have st1: "next_object st1 = Suc n" "modelObjects st1 = modelObjects st"
    "\<And>q'. q' \<noteq> n \<Longrightarrow> videoNodes st1 q' = videoNodes st q'" "videoNodes st1 n = Some v"
    by (simp_all add: st1_def)
  from Cons.prems(1) v obtain ps' where r: "copy_nodes qs st1 = Inr (ps', st')" and ps: "ps = n # ps'"
    by (auto simp: new_VideoNode_def st1_def n_def split: sum.splits)
  have lt: "\<forall>q\<in>set qs. q < next_object st1" using Cons.prems(2) st1(1) n_def by auto
  from Cons.IH[OF r lt] have
    i1: "next_object st' = next_object st1 + length qs" and
    i2: "ps' = [next_object st1..<next_object st1 + length qs]" and
    i3: "modelObjects st' = modelObjects st1" and
    i4: "\<And>q'. q' < next_object st1 \<Longrightarrow> videoNodes st' q' = videoNodes st1 q'" and
    i5: "read_nodes st' ps' = read_nodes st1 qs"
    by blast+
  have keep: "videoNodes st' q' = videoNodes st q'" if "q' < n" for q'
    using i4[of q'] st1(1) st1(3)[of q'] that by simp
  have at_n: "videoNodes st' n = Some v" using i4[of n] st1(1,4) by simp
  have "\<forall>q'\<in>set qs. videoNodes st1 q' = videoNodes st q'"
    using Cons.prems(2) st1(3) n_def by auto
  then have "read_nodes st1 qs = read_nodes st qs" by (rule read_nodes_cong)
  with i5 have rd: "read_nodes st' ps' = read_nodes st qs" by simp
  have "[n..<n + length (q # qs)] = n # [Suc n..<n + length (q # qs)]"
    by (rule upt_conv_Cons) simp
  moreover have "n + length (q # qs) = Suc n + length qs" by simp
  ultimately have upt: "[n..<n + length (q # qs)] = n # [Suc n..<Suc n + length qs]"
    by (simp only:)
  have c1: "next_object st' = n + length (q # qs)" using i1 st1(1) by simp
  have c2: "ps = [n..<n + length (q # qs)]" unfolding upt ps using i2 st1(1) by simp
  have c3: "modelObjects st' = modelObjects st" using i3 st1(2) by simp
  have c5: "read_nodes st' ps = read_nodes st (q # qs)" using ps at_n rd v by simp
  from c1 c2 c3 c5 keep show ?case unfolding n_def by blast
qed

lemma copy_nodes_succeeds:
  assumes "\<forall>q\<in>set qs. videoNodes st q \<noteq> None \<and> q < next_object st"
  shows "\<exists>ps st'. copy_nodes qs st = Inr (ps, st')"
  using assms
proof (induction qs arbitrary: st)
  case Nil
  then show ?case by simp
next
  case (Cons q qs)
  then obtain v where v: "videoNodes st q = Some v" by auto
  let ?st1 = "st\<lparr>videoNodes := (videoNodes st)(next_object st \<mapsto> v), next_object := Suc (next_object st)\<rparr>"
  have "\<forall>q\<in>set qs. videoNodes ?st1 q \<noteq> None \<and> q < next_object ?st1"
    using Cons.prems by auto
  from Cons.IH[OF this] obtain ps st' where "copy_nodes qs ?st1 = Inr (ps, st')" by blast
  with v show ?case by (simp add: new_VideoNode_def)
qed

lemma find_in_set: "find P xs = Some x \<Longrightarrow> x \<in> set xs"
  by (induction xs) (auto split: if_splits)

lemma find_node_SomeD:
  assumes "find_node st p i = Some (q, v)"
  shows "q \<in> set (vertex_ptrs (modelObjects st p))" "videoNodes st q = Some v"
proof -
  from assms have "(q, v) \<in> set (List.map_filter (\<lambda>q. map_option (Pair q) (videoNodes st q))
      (vertex_ptrs (modelObjects st p)))"
    unfolding find_node_def by (rule find_in_set)
  then show "q \<in> set (vertex_ptrs (modelObjects st p))" "videoNodes st q = Some v"
    by (auto simp: List.map_filter_def)
qed

subsection \<open>What a call of the mutation API can write\<close>

lemma modelObjects_on_modelObject:
  "modelObjects (on_modelObject p f st) p' = (if p' = p then f (modelObjects st p) else modelObjects st p')"
  "videoNodes (on_modelObject p f st) = videoNodes st"
  "next_object (on_modelObject p f st) = next_object st"
  by (simp_all add: on_modelObject_def)

lemma apply_mutation_frame:
  assumes run: "apply_mutation p m st = Inr st'" and al: "objects_allocated st"
  shows "next_object st \<le> next_object st'"
    and "objects_allocated st'"
    and "\<And>q. q < next_object st \<Longrightarrow> (\<forall>p'. q \<notin> set (vertex_ptrs (modelObjects st p'))) \<Longrightarrow>
              videoNodes st' q = videoNodes st q"
    and "\<And>p' q. q \<in> set (vertex_ptrs (modelObjects st' p')) \<Longrightarrow>
              q \<in> set (vertex_ptrs (modelObjects st p')) \<or> next_object st \<le> q"
proof -
  have al': "\<And>p' q. q \<in> set (vertex_ptrs (modelObjects st p')) \<Longrightarrow> q < next_object st"
    using al by (simp add: objects_allocated_def)
  have "next_object st \<le> next_object st' \<and> objects_allocated st' \<and>
        (\<forall>q. q < next_object st \<longrightarrow> (\<forall>p'. q \<notin> set (vertex_ptrs (modelObjects st p'))) \<longrightarrow>
              videoNodes st' q = videoNodes st q) \<and>
        (\<forall>p' q. q \<in> set (vertex_ptrs (modelObjects st' p')) \<longrightarrow>
              q \<in> set (vertex_ptrs (modelObjects st p')) \<or> next_object st \<le> q)"
  proof (cases m)
    case (AddNode n ps)
    with run have st': "st' = on_modelObject p (\<lambda>m. m\<lparr>vertex_ptrs := vertex_ptrs m @ [next_object st]\<rparr>)
        (st\<lparr>videoNodes := (videoNodes st)(next_object st \<mapsto>
               \<lparr>nodeId = int (next_object st), inputCount = n, parameters = ps\<rparr>),
            next_object := Suc (next_object st)\<rparr>)"
      by (simp add: new_VideoNode_def)
    show ?thesis
      unfolding st' objects_allocated_def
      using al' by (auto simp: modelObjects_on_modelObject less_Suc_eq)
  next
    case (RemoveNode i)
    with run obtain q v where "find_node st p i = Some (q, v)"
      and st': "st' = on_modelObject p
                 (\<lambda>m. m\<lparr>vertex_ptrs := removeAll q (vertex_ptrs m),
                        obj_edges := filter (\<lambda>e. fromNode e \<noteq> i \<and> toNode e \<noteq> i) (obj_edges m),
                        obj_textures := (\<lambda>c. (obj_textures m c)(i := None))\<rparr>) st"
      by (auto split: option.splits)
    show ?thesis
      unfolding st' objects_allocated_def
      using al' by (auto simp: modelObjects_on_modelObject)
  next
    case (AddEdge e)
    with run have st': "st' = on_modelObject p (\<lambda>m. m\<lparr>obj_edges := obj_edges m @ [e]\<rparr>) st"
      by (auto split: option.splits if_splits)
    show ?thesis
      unfolding st' objects_allocated_def
      using al' by (auto simp: modelObjects_on_modelObject)
  next
    case (RemoveEdge e)
    with run have st': "st' = on_modelObject p (\<lambda>m. m\<lparr>obj_edges := removeAll e (obj_edges m)\<rparr>) st"
      by (auto split: if_splits)
    show ?thesis
      unfolding st' objects_allocated_def
      using al' by (auto simp: modelObjects_on_modelObject)
  next
    case (SetParameter i k x)
    with run obtain q v where f: "find_node st p i = Some (q, v)"
      and st': "st' = st\<lparr>videoNodes := (videoNodes st)
                 (q \<mapsto> v\<lparr>parameters := (k, x) # filter (\<lambda>kx. fst kx \<noteq> k) (parameters v)\<rparr>)\<rparr>"
      by (auto split: option.splits)
    from find_node_SomeD(1)[OF f] have live: "q \<in> set (vertex_ptrs (modelObjects st p))" .
    show ?thesis
      unfolding st' objects_allocated_def
      using al' live by auto
  next
    case (AddChain chain)
    with run have st': "st' = on_modelObject p
            (\<lambda>m. if chain \<in> set (obj_chains m) then m else m\<lparr>obj_chains := obj_chains m @ [chain]\<rparr>) st"
      by simp
    show ?thesis
      unfolding st' objects_allocated_def
      using al' by (auto simp: modelObjects_on_modelObject)
  next
    case (RemoveChain chain)
    with run have st': "st' = on_modelObject p
            (\<lambda>m. m\<lparr>obj_chains := removeAll chain (obj_chains m),
                   obj_textures := (obj_textures m)(chain := Map.empty)\<rparr>) st"
      by simp
    show ?thesis
      unfolding st' objects_allocated_def
      using al' by (auto simp: modelObjects_on_modelObject)
  qed
  then show "next_object st \<le> next_object st'"
    and "objects_allocated st'"
    and "\<And>q. q < next_object st \<Longrightarrow> (\<forall>p'. q \<notin> set (vertex_ptrs (modelObjects st p'))) \<Longrightarrow>
              videoNodes st' q = videoNodes st q"
    and "\<And>p' q. q \<in> set (vertex_ptrs (modelObjects st' p')) \<Longrightarrow>
              q \<in> set (vertex_ptrs (modelObjects st p')) \<or> next_object st \<le> q"
    by blast+
qed

lemma apply_mutation_separate:
  assumes run: "apply_mutation p m st = Inr st'" and al: "objects_allocated st"
    and sep: "snapshot_separate ps st"
  shows "objects_allocated st'" "snapshot_separate ps st'" "read_nodes st' ps = read_nodes st ps"
proof -
  note fr = apply_mutation_frame[OF run al]
  show "objects_allocated st'" by (rule fr(2))
  have s: "\<And>q. q \<in> set ps \<Longrightarrow> q < next_object st \<and> (\<forall>p. q \<notin> set (vertex_ptrs (modelObjects st p)))"
    using sep by (simp add: snapshot_separate_def)
  show "snapshot_separate ps st'"
    unfolding snapshot_separate_def
  proof (intro ballI conjI allI)
    fix q assume q: "q \<in> set ps"
    show "q < next_object st'" using s[OF q] fr(1) by simp
    fix p'
    show "q \<notin> set (vertex_ptrs (modelObjects st' p'))"
    proof
      assume "q \<in> set (vertex_ptrs (modelObjects st' p'))"
      from fr(4)[OF this] s[OF q] show False by auto
    qed
  qed
  have "\<forall>q\<in>set ps. videoNodes st' q = videoNodes st q"
    using s fr(3) by blast
  then show "read_nodes st' ps = read_nodes st ps" by (rule read_nodes_cong)
qed

lemma mutations_keep_snapshot:
  assumes "objects_allocated s" "snapshot_separate ps s"
  shows "\<exists>s'. preview_steps debug render (map (\<lambda>pm. ModelMutated (fst pm) (snd pm)) ms) (a, s, c)
           = Inr (a, s', c) \<and>
         objects_allocated s' \<and> snapshot_separate ps s' \<and> read_nodes s' ps = read_nodes s ps"
  using assms
proof (induction ms arbitrary: s)
  case Nil
  then show ?case by simp
next
  case (Cons pm ms)
  show ?case
  proof (cases "apply_mutation (fst pm) (snd pm) s")
    case (Inl err)
    with Cons.IH[OF Cons.prems] show ?thesis by simp
  next
    case (Inr s1)
    note k = apply_mutation_separate[OF Inr Cons.prems]
    from Cons.IH[OF k(1,2)] obtain s' where
      "preview_steps debug render (map (\<lambda>pm. ModelMutated (fst pm) (snd pm)) ms) (a, s1, c)
           = Inr (a, s', c)"
      "objects_allocated s'" "snapshot_separate ps s'" "read_nodes s' ps = read_nodes s1 ps"
      by blast
    with Inr k(3) show ?thesis by simp
  qed
qed

lemma copy_is_separate:
  assumes "createCopyForRendering_objects chain p s = Inr (modelCopy, s1)" "objects_allocated s"
  shows "objects_allocated s1" "snapshot_separate (copied_ptrs modelCopy) s1"
proof -
  let ?qs = "vertex_ptrs (modelObjects s p)"
  from assms(1) obtain ps where c: "copy_nodes ?qs s = Inr (ps, s1)"
    and mc: "modelCopy = \<lparr>copied_ptrs = ps, copied_edges = obj_edges (modelObjects s p)\<rparr>"
    by (auto simp: createCopyForRendering_objects_def split: sum.splits)
  have al: "\<And>p' q. q \<in> set (vertex_ptrs (modelObjects s p')) \<Longrightarrow> q < next_object s"
    using assms(2) by (simp add: objects_allocated_def)
  then have "\<forall>q\<in>set ?qs. q < next_object s" by blast
  from copy_nodes_result[OF c this] have
    n: "next_object s1 = next_object s + length ?qs" and
    ps: "ps = [next_object s..<next_object s + length ?qs]" and
    m: "modelObjects s1 = modelObjects s"
    by blast+
  show "objects_allocated s1"
    unfolding objects_allocated_def m using al n by fastforce
  show "snapshot_separate (copied_ptrs modelCopy) s1"
    unfolding snapshot_separate_def m mc using al n ps by fastforce
qed

subsection \<open>A render and the mutations that follow the copy\<close>

lemma preview_steps_append:
  "preview_steps debug render (xs @ ys) st =
     (case preview_steps debug render xs st of
        Inl err \<Rightarrow> Inl err
      | Inr st' \<Rightarrow> preview_steps debug render ys st')"
  by (induction xs arbitrary: st) (simp_all split: sum.splits)

lemma preview_steps_plain:
  "map_sum id (\<lambda>st. (fst st, fst (snd st))) (preview_steps debug render [CopyCreated, Rendered] (a, s, None))
     = onBeforeSynchronizing_objects debug render (a, s)"
  by (simp add: onBeforeSynchronizing_objects_def split: option.splits sum.splits)

lemma map_sum_at:
  "map_sum id (\<lambda>st. f st) x = map_sum id (\<lambda>st. f st) y
     \<Longrightarrow> map_sum id (\<lambda>st. f st k) x = map_sum id (\<lambda>st. f st k) y"
  by (cases x; cases y) simp_all

text \<open>
  On a state of objects without dangling pointers, \<open>onBeforeSynchronizing\<close> on objects stores
  the render that \<open>onBeforeSynchronizing\<close> stores on the models these objects stand for.
\<close>

lemma onBeforeSynchronizing_objects_refines:
  assumes al: "objects_allocated s" and nd: "\<And>p. m_model a = Some p \<Longrightarrow> no_dangling s p"
  shows "map_sum id (\<lambda>st. m_lastPreviewRender (fst st)) (onBeforeSynchronizing_objects debug render (a, s))
       = map_sum id (\<lambda>st. m_lastPreviewRender (fst st))
           (onBeforeSynchronizing debug render (a, \<lparr>models = Model_of s, next_chain = n\<rparr>))"
proof (cases "debug \<and> \<not> m_hasPreview a")
  case True
  then show ?thesis by (simp add: onBeforeSynchronizing_objects_def onBeforeSynchronizing_def)
next
  case ok: False
  show ?thesis
  proof (cases "m_model a")
    case None
    with ok show ?thesis by (simp add: onBeforeSynchronizing_objects_def onBeforeSynchronizing_def)
  next
    case (Some p)
    let ?qs = "vertex_ptrs (modelObjects s p)"
    have allq: "\<forall>q\<in>set ?qs. q < next_object s"
      using al by (simp add: objects_allocated_def)
    have ndq: "\<forall>q\<in>set ?qs. videoNodes s q \<noteq> None"
      using nd[OF Some] by (simp add: no_dangling_def)
    have "\<forall>q\<in>set ?qs. videoNodes s q \<noteq> None \<and> q < next_object s"
      using allq ndq by blast
    from copy_nodes_succeeds[OF this] obtain ps s1 where c: "copy_nodes ?qs s = Inr (ps, s1)"
      by blast
    from copy_nodes_result[OF c allq] have r: "read_nodes s1 ps = read_nodes s ?qs" by blast
    have "read_nodes s ?qs = Inr (List.map_filter (videoNodes s) ?qs)"
      using ndq by (rule read_nodes_no_dangling)
    with r have r1: "read_nodes s1 ps = Inr (List.map_filter (videoNodes s) ?qs)" by simp
    show ?thesis
      using ok Some c r1
      by (simp add: onBeforeSynchronizing_objects_def onBeforeSynchronizing_def
          createCopyForRendering_objects_def render_objects_def createCopyForRendering_def
          Model_of_def)
  qed
qed

text \<open>
  A snapshot that holds the pointers of the live model, instead of pointers to copies, shows
  a later \<open>setParameter\<close> in its render: the texture of node 7 is 5, not 1.
\<close>

lemma aliasing_snapshot_observes_mutation:
  "map_sum id (\<lambda>st. m_lastPreviewRender (fst st) 7)
     (preview_steps True intensity_render [ModelMutated 3 (SetParameter 7 ''intensity'' 5), Rendered]
        (sample_adapter, sample_objects,
         Some \<lparr>copied_ptrs = vertex_ptrs (modelObjects sample_objects 3), copied_edges = []\<rparr>))
     = Inr (Some 5) \<and>
   map_sum id (\<lambda>st. m_lastPreviewRender (fst st) 7)
     (preview_steps True intensity_render [Rendered]
        (sample_adapter, sample_objects,
         Some \<lparr>copied_ptrs = vertex_ptrs (modelObjects sample_objects 3), copied_edges = []\<rparr>))
     = Inr (Some 1)"
  by (simp add: sample_adapter_def sample_objects_def intensity_render_def render_objects_def
      find_node_def List.map_filter_def)

text \<open>
  C1. The snapshot is the value returned by \<open>createCopyForRendering(m_previewChain)\<close> in
  \<open>onBeforeSynchronizing\<close>; \<open>render\<close> reads the snapshot's node objects when it runs. Starting
  in a state where every node pointer of a live model was returned by an earlier \<open>new\<close>, for
  every sequence of calls of the mutation API (\<open>addNode\<close>, \<open>removeNode\<close>, \<open>addEdge\<close>,
  \<open>removeEdge\<close>, \<open>setParameter\<close>, \<open>addChain\<close>, \<open>removeChain\<close>, on any model) made between the
  creation of the snapshot and its render, the render stores in \<open>m_lastPreviewRender\<close> the
  same mapping from node identifiers to textures, or fails in the same way, as when the render
  follows the creation of the snapshot at once.
\<close>

theorem render_ignores_later_mutations:
  assumes al: "objects_allocated s"
  shows "map_sum id (\<lambda>st. m_lastPreviewRender (fst st))
       (preview_steps debug render
          (CopyCreated # map (\<lambda>pm. ModelMutated (fst pm) (snd pm)) ms @ [Rendered]) (a, s, None))
     = map_sum id (\<lambda>st. m_lastPreviewRender (fst st))
       (preview_steps debug render [CopyCreated, Rendered] (a, s, None))"
proof (cases "preview_step debug render CopyCreated (a, s, None)")
  case (Inl err)
  then show ?thesis by simp
next
  case (Inr st1)
  then obtain p modelCopy s1 where p: "m_model a = Some p"
    and c: "createCopyForRendering_objects (m_previewChain a) p s = Inr (modelCopy, s1)"
    and st1: "st1 = (a, s1, Some modelCopy)"
    by (auto split: if_splits option.splits sum.splits)
  note sep = copy_is_separate[OF c al]
  from mutations_keep_snapshot[OF sep, of debug render ms a "Some modelCopy"]
  obtain s' where run: "preview_steps debug render (map (\<lambda>pm. ModelMutated (fst pm) (snd pm)) ms)
             (a, s1, Some modelCopy) = Inr (a, s', Some modelCopy)"
    and rd: "read_nodes s' (copied_ptrs modelCopy) = read_nodes s1 (copied_ptrs modelCopy)"
    by blast
  have same: "render_objects render s' modelCopy (m_previewChain a)
            = render_objects render s1 modelCopy (m_previewChain a)"
    by (simp add: render_objects_def rd)
  have l: "preview_steps debug render
          (CopyCreated # map (\<lambda>pm. ModelMutated (fst pm) (snd pm)) ms @ [Rendered]) (a, s, None)
        = preview_steps debug render [Rendered] (a, s', Some modelCopy)"
    using Inr st1 run by (simp add: preview_steps_append del: preview_step.simps)
  have r: "preview_steps debug render [CopyCreated, Rendered] (a, s, None)
        = preview_steps debug render [Rendered] (a, s1, Some modelCopy)"
    using Inr st1 by (simp del: preview_step.simps)
  show ?thesis
    unfolding l r by (simp add: same split: sum.splits)
qed

theorem render_ignores_later_mutations_witness:
  "objects_allocated sample_objects \<and>
   map_sum id (\<lambda>st. m_lastPreviewRender (fst st) 7)
     (preview_steps True intensity_render
        [CopyCreated, ModelMutated 3 (SetParameter 7 ''intensity'' 5),
         ModelMutated 3 (RemoveNode 7), Rendered]
        (sample_adapter, sample_objects, None)) = Inr (Some 1) \<and>
   map_sum id (\<lambda>st. m_lastPreviewRender (fst st) 7)
     (preview_steps True intensity_render [CopyCreated, Rendered]
        (sample_adapter, sample_objects, None)) = Inr (Some 1) \<and>
   map_sum id (\<lambda>st. m_lastPreviewRender (fst st) 7)
     (preview_steps True intensity_render
        [ModelMutated 3 (SetParameter 7 ''intensity'' 5), CopyCreated, Rendered]
        (sample_adapter, sample_objects, None)) = Inr (Some 5)"
proof -
  have al: "objects_allocated sample_objects"
    by (simp add: objects_allocated_def sample_objects_def)
  have plain: "map_sum id (\<lambda>st. m_lastPreviewRender (fst st) 7)
     (preview_steps True intensity_render [CopyCreated, Rendered]
        (sample_adapter, sample_objects, None)) = Inr (Some 1)"
    by (simp add: sample_adapter_def sample_objects_def intensity_render_def render_objects_def
        createCopyForRendering_objects_def new_VideoNode_def)
  have before: "map_sum id (\<lambda>st. m_lastPreviewRender (fst st) 7)
     (preview_steps True intensity_render
        [ModelMutated 3 (SetParameter 7 ''intensity'' 5), CopyCreated, Rendered]
        (sample_adapter, sample_objects, None)) = Inr (Some 5)"
    by (simp add: sample_adapter_def sample_objects_def intensity_render_def render_objects_def
        createCopyForRendering_objects_def new_VideoNode_def find_node_def List.map_filter_def)
  have "map_sum id (\<lambda>st. m_lastPreviewRender (fst st) 7)
     (preview_steps True intensity_render
        (CopyCreated # map (\<lambda>pm. ModelMutated (fst pm) (snd pm))
            [(3, SetParameter 7 ''intensity'' 5), (3, RemoveNode 7)] @ [Rendered])
        (sample_adapter, sample_objects, None))
     = map_sum id (\<lambda>st. m_lastPreviewRender (fst st) 7)
     (preview_steps True intensity_render [CopyCreated, Rendered]
        (sample_adapter, sample_objects, None))"
    using render_ignores_later_mutations[OF al] by (rule map_sum_at)
  then have "map_sum id (\<lambda>st. m_lastPreviewRender (fst st) 7)
     (preview_steps True intensity_render
        [CopyCreated, ModelMutated 3 (SetParameter 7 ''intensity'' 5),
         ModelMutated 3 (RemoveNode 7), Rendered]
        (sample_adapter, sample_objects, None))
     = map_sum id (\<lambda>st. m_lastPreviewRender (fst st) 7)
     (preview_steps True intensity_render [CopyCreated, Rendered]
        (sample_adapter, sample_objects, None))"
    by (simp only: list.map fst_conv snd_conv append.simps)
  with al plain before show ?thesis by simp
qed

end
